theory Spec2Isabelle
  imports Complex_Main
begin

section \<open>Vectors, rotations and arrays\<close>

text \<open>
  Field values and positions are triples of reals (the floating-point numbers of the
  source are read as exact reals).  A scipy \<open>Rotation\<close> is modelled by the array of
  quaternions that \<open>as_quat()\<close> returns, scalar part last; \<open>R.from_quat\<close> on such
  an array gives the same rotations back.
\<close>

type_synonym vec = "real \<times> real \<times> real"
type_synonym quat = "real \<times> real \<times> real \<times> real"

definition vzero :: vec where
  "vzero = (0, 0, 0)"

fun vadd :: "vec \<Rightarrow> vec \<Rightarrow> vec" where
  "vadd (a, b, c) (x, y, z) = (a + x, b + y, c + z)"

fun vsub :: "vec \<Rightarrow> vec \<Rightarrow> vec" where
  "vsub (a, b, c) (x, y, z) = (a - x, b - y, c - z)"

definition unitQ :: quat where
  "unitQ = (0, 0, 0, 1)"

text \<open>\<open>Rotation.inv()\<close>: the scalar part of the quaternion changes sign.\<close>

fun inv_q :: "quat \<Rightarrow> quat" where
  "inv_q (x, y, z, w) = (x, y, z, - w)"

text \<open>\<open>Rotation.apply(v)\<close>: the rotation matrix of the quaternion times \<open>v\<close>.\<close>

fun apply_q :: "quat \<Rightarrow> vec \<Rightarrow> vec" where
  "apply_q (x, y, z, w) (a, b, c) =
     ((x*x - y*y - z*z + w*w) * a + 2 * (x*y - z*w) * b + 2 * (x*z + y*w) * c,
      2 * (x*y + z*w) * a + (- (x*x) + y*y - z*z + w*w) * b + 2 * (y*z - x*w) * c,
      2 * (x*z - y*w) * a + 2 * (y*z + x*w) * b + (- (x*x) - y*y + z*z + w*w) * c)"

text \<open>
  A numpy array of floats whose rows are 3-vectors: its full shape and the rows of
  \<open>reshape(-1,3)\<close>.
\<close>

record ndarray =
  shape :: "nat list"
  rows :: "vec list"

text \<open>The working array \<open>B\<close> of shape \<open>(l, m, n, 3)\<close>: source, path step, observer point.\<close>

type_synonym tensor = "vec list list list"

datatype error = MagpylibBadUserInput string | ValueError | IndexError

section \<open>Objects and the object store\<close>

datatype obj_class = Box | Cylinder | Sphere | Dipole | Sensor | Unknown

text \<open>
  One movable object: its class, its path \<open>_pos\<close> (shape \<open>(M,3)\<close>) and \<open>_rot\<close>
  (\<open>M\<close> quaternions), the excitation and geometry attributes of the source classes,
  and the pixel array \<open>pos_pix\<close> of a sensor.
\<close>

record geo =
  obj_class :: obj_class
  pos :: "vec list"
  rot :: "quat list"
  mag :: vec
  dim :: "real list"
  moment :: vec
  pos_pix :: ndarray

text \<open>
  Objects are mutated in place by the evaluation, and one object can be reached several
  times (directly and through a Collection), so objects live in a store and are referred
  to by their address, the index in the store.
\<close>

type_synonym store = "geo list"

text \<open>A top-level entry of \<open>sources\<close>: an elementary object, or a Collection with its
  \<open>sources\<close> list.\<close>

datatype src_entry = Obj nat | Collection "nat list"

datatype 'a arg = Single 'a | Listed "'a list"

datatype obs_item = SensorObj nat | PosObs ndarray

datatype observers_arg = ObsSensor nat | ObsArray ndarray | ObsList "obs_item list"

text \<open>What the evaluation does besides returning: the batched formula calls
  (\<open>getBH_level1\<close>, with \<open>bh\<close>, the source type and the number of rows), the summation
  of a Collection's slice (top-level index, number of members), and the inverse rotation
  of one sensor's slice (sensor index, quaternion, number of vectors rotated).\<close>

datatype event =
    Level1 bool obj_class nat
  | SumMembers nat nat
  | RotBack nat quat nat

section \<open>Helpers that the evaluation imports\<close>

text \<open>
  Modelled from the spec: \<open>format_obj_input\<close> (magpylib._lib.utility) is not part of
  the sources at hand.  The flattened list of elementary sources, Collections expanded
  in place, in order.
\<close>

fun members :: "src_entry \<Rightarrow> nat list" where
  "members (Obj a) = [a]"
| "members (Collection as) = as"

definition format_obj_input :: "src_entry list \<Rightarrow> nat list" where
  "format_obj_input sources = concat (map members sources)"

text \<open>
  Modelled from the spec: \<open>all_same\<close> (magpylib._lib.utility) is not part of the
  sources at hand.  All observers expose pixel grids of identical shape.
\<close>

definition all_same :: "'a list \<Rightarrow> bool" where
  "all_same xs = list_all (\<lambda>x. x = hd xs) xs"

text \<open>
  Modelled from the spec: \<open>get_good_path_length\<close> (magpylib._lib.utility) is not part
  of the sources at hand.  The reconciled length is the maximum of all path lengths; it
  is a hard error if any object's path length is neither 1 nor that maximum.
\<close>

definition get_good_path_length :: "store \<Rightarrow> nat list \<Rightarrow> error + nat" where
  "get_good_path_length h obj_list =
     (let path_lengths = map (\<lambda>a. length (pos (h ! a))) obj_list;
          m = fold max path_lengths 0
      in if list_all (\<lambda>pl. pl = 1 \<or> pl = m) path_lengths then Inr m
         else Inl (MagpylibBadUserInput ''Bad path format''))"

text \<open>
  Modelled from the spec: the \<open>Sensor\<close> class is not part of the sources at hand.  A
  bare position is wrapped as a Sensor that holds the given positions as its pixels; an
  object is created with path length 1, at the origin and with the unit orientation.
\<close>

definition Sensor_new :: "ndarray \<Rightarrow> geo" where
  "Sensor_new pix =
     \<lparr>obj_class = Sensor, pos = [vzero], rot = [unitQ], mag = vzero, dim = [],
      moment = vzero, pos_pix = pix\<rparr>"

text \<open>
  \<open>np.array\<close> of a list of equally shaped arrays stacks them along a new first axis;
  a ragged list is no float array.  The empty list gives shape \<open>(0,)\<close>.
\<close>

definition np_stack :: "ndarray list \<Rightarrow> error + ndarray" where
  "np_stack xs =
     (if xs = [] then Inr \<lparr>shape = [0], rows = []\<rparr>
      else if all_same (map shape xs)
      then Inr \<lparr>shape = length xs # shape (hd xs), rows = concat (map rows xs)\<rparr>
      else Inl ValueError)"

text \<open>
  Modelled from the spec: \<open>getBH_level1\<close> (magpylib._lib.fields.field_wrap_BH_level1)
  is not part of the sources at hand.  It receives the stacked parameter arrays of one
  source type and computes every row independently of the others: the observer position
  relative to the source position is rotated into the source frame by the inverse of the
  source orientation, the closed-form formula \<open>F\<close> of the source type (a parameter of
  the model) is evaluated there, and the result is rotated back out by the source
  orientation.
\<close>

datatype src_dict =
    HomoMagDict "vec list" "real list list" "vec list" "vec list" "quat list"
  | DipoleDict "vec list" "vec list" "vec list" "quat list"

type_synonym formula = "bool \<Rightarrow> obj_class \<Rightarrow> vec \<Rightarrow> real list \<Rightarrow> vec \<Rightarrow> vec"

definition level1_row :: "formula \<Rightarrow> bool \<Rightarrow> obj_class \<Rightarrow> vec \<Rightarrow> real list \<Rightarrow> vec \<Rightarrow> quat \<Rightarrow> vec \<Rightarrow> vec" where
  "level1_row F bh ty exc d p r po = apply_q r (F bh ty exc d (apply_q (inv_q r) (vsub po p)))"

fun getBH_level1 :: "formula \<Rightarrow> bool \<Rightarrow> obj_class \<Rightarrow> src_dict \<Rightarrow> vec list" where
  "getBH_level1 F bh ty (HomoMagDict magv dimv posv posov rotv) =
     map (\<lambda>(exc, d, p, po, r). level1_row F bh ty exc d p r po)
       (zip magv (zip dimv (zip posv (zip posov rotv))))"
| "getBH_level1 F bh ty (DipoleDict momv posv posov rotv) =
     map (\<lambda>(exc, p, po, r). level1_row F bh ty exc [] p r po)
       (zip momv (zip posv (zip posov rotv)))"

section \<open>Sequencing with errors and events\<close>

text \<open>
  A stage either raises (the events so far are kept) or returns a value; the next
  stage runs only after a return.  \<open>for_loop\<close> is a \<open>for\<close> loop over a list whose
  body may raise.
\<close>

type_synonym 'a outcome = "(error + 'a) \<times> event list"

definition then_do :: "'a outcome \<Rightarrow> ('a \<Rightarrow> 'b outcome) \<Rightarrow> 'b outcome" where
  "then_do r f =
     (case r of
        (Inl e, evs) \<Rightarrow> (Inl e, evs)
      | (Inr x, evs) \<Rightarrow> (case f x of (y, evs') \<Rightarrow> (y, evs @ evs')))"

fun for_loop :: "('i \<Rightarrow> 'a \<Rightarrow> 'a outcome) \<Rightarrow> 'i list \<Rightarrow> 'a \<Rightarrow> 'a outcome" where
  "for_loop body [] x = (Inr x, [])"
| "for_loop body (i # is) x = then_do (body i x) (for_loop body is)"

section \<open>The input dictionaries of the batched formula call\<close>

text \<open>
  \<open>scr_dict_homo_mag\<close> and \<open>scr_dict_dipole\<close>: for every source of the group a block
  of \<open>mn\<close> rows; the excitation and the dimension are repeated on every row,
  \<open>np.tile(src._pos,n).reshape(mn,3)\<close> repeats every path position \<open>n\<close> times in
  turn, and the observer positions are tiled once per source.  For a Sphere the
  dimension column holds one number per row.
\<close>

definition scr_dict_homo_mag :: "store \<Rightarrow> nat list \<Rightarrow> vec list \<Rightarrow> src_dict" where
  "scr_dict_homo_mag h grp poso =
     (let l_group = length grp;
          m = length (pos (h ! hd grp));
          mn = length poso;
          n = mn div m;
          magv = concat (map (\<lambda>src. replicate mn (mag (h ! src))) grp);
          dimv = concat (map (\<lambda>src. replicate mn (dim (h ! src))) grp);
          posv = concat (map (\<lambda>src. concat (map (replicate n) (pos (h ! src)))) grp);
          rotv = concat (map (\<lambda>src. concat (map (replicate n) (rot (h ! src)))) grp);
          posov = concat (replicate l_group poso)
      in HomoMagDict magv dimv posv posov rotv)"

definition scr_dict_dipole :: "store \<Rightarrow> nat list \<Rightarrow> vec list \<Rightarrow> src_dict" where
  "scr_dict_dipole h grp poso =
     (let l_group = length grp;
          m = length (pos (h ! hd grp));
          mn = length poso;
          n = mn div m;
          momv = concat (map (\<lambda>src. replicate mn (moment (h ! src))) grp);
          posv = concat (map (\<lambda>src. concat (map (replicate n) (pos (h ! src)))) grp);
          rotv = concat (map (\<lambda>src. concat (map (replicate n) (rot (h ! src)))) grp);
          posov = concat (replicate l_group poso)
      in DipoleDict momv posv posov rotv)"

section \<open>The stages of \<open>getBH_level2\<close>\<close>

subsection \<open>Formatting the observers\<close>

fun is_sensor :: "obs_item \<Rightarrow> bool" where
  "is_sensor (SensorObj a) = True"
| "is_sensor (PosObs x) = False"

fun the_pos :: "obs_item \<Rightarrow> ndarray" where
  "the_pos (PosObs x) = x"
| "the_pos (SensorObj a) = \<lparr>shape = [], rows = []\<rparr>"

text \<open>The loop of lines 149-153: a sensor is taken as it is, anything else is wrapped in
  a new Sensor object.\<close>

fun wrap_items :: "obs_item list \<Rightarrow> nat list \<Rightarrow> store \<Rightarrow> nat list \<times> store" where
  "wrap_items [] sensors h = (sensors, h)"
| "wrap_items (SensorObj a # obs) sensors h = wrap_items obs (sensors @ [a]) h"
| "wrap_items (PosObs x # obs) sensors h =
     wrap_items obs (sensors @ [length h]) (h @ [Sensor_new x])"

fun format_observers :: "observers_arg \<Rightarrow> store \<Rightarrow> error + (nat list \<times> store)" where
  "format_observers (ObsSensor a) h = Inr ([a], h)"
| "format_observers (ObsArray x) h = Inr ([length h], h @ [Sensor_new x])"
| "format_observers (ObsList obs) h =
     (if list_ex is_sensor obs then Inr (wrap_items obs [] h)
      else (case np_stack (map the_pos obs) of
              Inl e \<Rightarrow> Inl e
            | Inr x \<Rightarrow> Inr ([length h], h @ [Sensor_new x])))"

subsection \<open>Sensor flags\<close>

definition unrotated_sensors :: "store \<Rightarrow> nat list \<Rightarrow> bool list" where
  "unrotated_sensors h sensors = map (\<lambda>sens. list_all (\<lambda>r. r = unitQ) (rot (h ! sens))) sensors"

definition static_sensor_rot :: "store \<Rightarrow> nat list \<Rightarrow> bool list" where
  "static_sensor_rot h sensors =
     map (\<lambda>sens. if length (pos (h ! sens)) = 1 then True
                  else list_all (\<lambda>r. r = rot (h ! sens) ! 0) (rot (h ! sens))) sensors"

subsection \<open>Tiling the paths of static objects, and the reset\<close>

definition tile_obj :: "nat \<Rightarrow> geo \<Rightarrow> geo" where
  "tile_obj m obj = obj\<lparr>pos := replicate m (pos obj ! 0), rot := concat (replicate m (rot obj))\<rparr>"

fun tile_up :: "nat \<Rightarrow> nat list \<Rightarrow> store \<Rightarrow> nat list \<Rightarrow> store \<times> nat list" where
  "tile_up m [] h reset_objects = (h, reset_objects)"
| "tile_up m (obj # objs) h reset_objects =
     (if length (pos (h ! obj)) = 1
      then tile_up m objs (h[obj := tile_obj m (h ! obj)]) (reset_objects @ [obj])
      else tile_up m objs h reset_objects)"

definition reset_obj :: "geo \<Rightarrow> geo" where
  "reset_obj obj = obj\<lparr>pos := [pos obj ! 0], rot := [rot obj ! 0]\<rparr>"

definition reset_tiled :: "nat list \<Rightarrow> store \<Rightarrow> store" where
  "reset_tiled reset_objects h = fold (\<lambda>obj h. h[obj := reset_obj (h ! obj)]) reset_objects h"

subsection \<open>Observer positions\<close>

text \<open>Lines 208-211: per sensor and path step the pixels in the world frame; the
  concatenation along axis 1 puts, for every path step, the pixels of all sensors in a
  row.\<close>

definition sensor_points :: "geo \<Rightarrow> vec list list" where
  "sensor_points sens =
     map (\<lambda>(r, p). map (\<lambda>x. vadd (apply_q r x) p) (rows (pos_pix sens))) (zip (rot sens) (pos sens))"

definition observer_positions :: "store \<Rightarrow> nat list \<Rightarrow> nat \<Rightarrow> vec list" where
  "observer_positions h sensors m =
     concat (map (\<lambda>j. concat (map (\<lambda>sens. sensor_points (h ! sens) ! j) sensors)) [0..<m])"

subsection \<open>Grouping the sources by type\<close>

fun group_sources ::
  "store \<Rightarrow> (nat \<times> nat) list \<Rightarrow> nat list list \<times> nat list list \<Rightarrow> error + (nat list list \<times> nat list list)" where
  "group_sources h [] acc = Inr acc"
| "group_sources h ((i, src) # rest) (src_sorted, order) =
     (if obj_class (h ! src) = Box
      then group_sources h rest (src_sorted[0 := src_sorted ! 0 @ [src]], order[0 := order ! 0 @ [i]])
      else if obj_class (h ! src) = Cylinder
      then group_sources h rest (src_sorted[1 := src_sorted ! 1 @ [src]], order[1 := order ! 1 @ [i]])
      else if obj_class (h ! src) = Sphere
      then group_sources h rest (src_sorted[2 := src_sorted ! 2 @ [src]], order[2 := order ! 2 @ [i]])
      else if obj_class (h ! src) = Dipole
      then group_sources h rest (src_sorted[3 := src_sorted ! 3 @ [src]], order[3 := order ! 3 @ [i]])
      else Inl (MagpylibBadUserInput ''Unrecognized object in sources input''))"

subsection \<open>Evaluating the groups\<close>

definition reshape_lmn :: "nat \<Rightarrow> nat \<Rightarrow> nat \<Rightarrow> vec list \<Rightarrow> error + tensor" where
  "reshape_lmn l m n xs =
     (if length xs = l * m * n
      then Inr (map (\<lambda>i. map (\<lambda>j. take n (drop ((i * m + j) * n) xs)) [0..<m]) [0..<l])
      else Inl ValueError)"

text \<open>One of the four blocks of lines 237-279.\<close>

definition eval_group ::
  "formula \<Rightarrow> bool \<Rightarrow> store \<Rightarrow> nat list list \<Rightarrow> nat list list \<Rightarrow> vec list \<Rightarrow> nat \<Rightarrow> nat \<Rightarrow>
   nat \<Rightarrow> tensor \<Rightarrow> tensor outcome" where
  "eval_group F bh h src_sorted order poso m n iii B =
     (let grp = src_sorted ! iii in
      if grp = [] then (Inr B, [])
      else
        let lg = length grp;
            src_type = [Box, Cylinder, Sphere, Dipole] ! iii;
            src_dict = (if iii = 3 then scr_dict_dipole h grp poso
                        else scr_dict_homo_mag h grp poso);
            B_group = getBH_level1 F bh src_type src_dict
        in (case reshape_lmn lg m n B_group of
              Inl e \<Rightarrow> (Inl e, [Level1 bh src_type (length B_group)])
            | Inr B_group \<Rightarrow>
                (Inr (fold (\<lambda>i B. B[order ! iii ! i := B_group ! i]) [0..<lg] B),
                 [Level1 bh src_type (length (concat (concat B_group)))])))"

subsection \<open>Summing the members of a Collection\<close>

definition sum_axis0 :: "nat \<Rightarrow> nat \<Rightarrow> tensor \<Rightarrow> vec list list" where
  "sum_axis0 m n Bs = fold (\<lambda>b acc. map2 (map2 vadd) acc b) Bs (replicate m (replicate n vzero))"

definition np_delete :: "'a list \<Rightarrow> nat \<Rightarrow> nat \<Rightarrow> 'a list" where
  "np_delete B lo hi = (if lo < hi then take lo B @ drop hi B else B)"

text \<open>The body of the loop of lines 284-288.\<close>

fun sum_entry :: "nat \<Rightarrow> nat \<Rightarrow> nat \<times> src_entry \<Rightarrow> tensor \<Rightarrow> tensor outcome" where
  "sum_entry m n (i, Obj a) B = (Inr B, [])"
| "sum_entry m n (i, Collection srcs) B =
     (let col_len = length srcs in
      if i < length B
      then (Inr (np_delete (B[i := sum_axis0 m n (take col_len (drop i B))]) (i + 1) (i + col_len)),
            [SumMembers i col_len])
      else (Inl IndexError, []))"

subsection \<open>Rotating into the sensor frames\<close>

text \<open>
  The slice \<open>lo:hi\<close> of one row of observer points: \<open>np.reshape\<close> to \<open>(P,3)\<close>,
  \<open>inv().apply\<close> and the reshape back rotate every vector of the slice in place.
\<close>

definition part :: "nat \<Rightarrow> nat \<Rightarrow> 'a list \<Rightarrow> 'a list" where
  "part lo hi xs = take (hi - lo) (drop lo xs)"

definition rot_part :: "quat \<Rightarrow> nat \<Rightarrow> nat \<Rightarrow> vec list \<Rightarrow> vec list" where
  "rot_part q lo hi xs = take lo xs @ map (apply_q (inv_q q)) (part lo hi xs) @ drop hi xs"

text \<open>Lines 306-309, one path step of a sensor whose orientation changes along the path.\<close>

definition rot_step :: "store \<Rightarrow> nat \<Rightarrow> nat \<Rightarrow> nat \<Rightarrow> nat \<Rightarrow> nat \<Rightarrow> tensor \<Rightarrow> tensor outcome" where
  "rot_step h sens i k_pixel l0 j B =
     (let lo = i * k_pixel; hi = (i + 1) * k_pixel;
          Bpart = map (\<lambda>b. part lo hi (b ! j)) B
      in if length (concat Bpart) = k_pixel * l0
         then (Inr (map (\<lambda>b. b[j := rot_part (rot (h ! sens) ! j) lo hi (b ! j)]) B),
               [RotBack i (rot (h ! sens) ! j) (length (concat Bpart))])
         else (Inl ValueError, []))"

text \<open>The body of the loop of lines 293-309.\<close>

definition rot_sensor ::
  "store \<Rightarrow> bool list \<Rightarrow> bool list \<Rightarrow> nat \<Rightarrow> nat \<Rightarrow> nat \<Rightarrow> nat \<times> nat \<Rightarrow> tensor \<Rightarrow> tensor outcome" where
  "rot_sensor h unrotated static k_pixel l0 m isens B =
     (case isens of (i, sens) \<Rightarrow>
      if \<not> unrotated ! i then
        if static ! i then
          (let lo = i * k_pixel; hi = (i + 1) * k_pixel;
               Bpart = map (map (part lo hi)) B
           in if length (concat (concat Bpart)) = k_pixel * l0 * m
              then (Inr (map (map (rot_part (rot (h ! sens) ! 0) lo hi)) B),
                    [RotBack i (rot (h ! sens) ! 0) (length (concat (concat Bpart)))])
              else (Inl ValueError, []))
        else for_loop (rot_step h sens i k_pixel l0) [0..<m] B
      else (Inr B, []))"

subsection \<open>The output array\<close>

definition np_reshape :: "nat list \<Rightarrow> tensor \<Rightarrow> error + ndarray" where
  "np_reshape shp B =
     (if 3 * length (concat (concat B)) = prod_list shp
      then Inr \<lparr>shape = shp, rows = concat (concat B)\<rparr>
      else Inl ValueError)"

text \<open>\<open>np.sum(B, axis=0)\<close>: the first axis has \<open>l\<close> blocks of \<open>c\<close> vectors each.\<close>

definition vsum :: "vec list \<Rightarrow> vec" where
  "vsum xs = fold (\<lambda>x acc. vadd acc x) xs vzero"

definition np_sum0 :: "ndarray \<Rightarrow> ndarray" where
  "np_sum0 A =
     (let l = hd (shape A); c = prod_list (tl (shape A)) div 3
      in \<lparr>shape = tl (shape A),
          rows = map (\<lambda>r. vsum (map (\<lambda>b. rows A ! (b * c + r)) [0..<l])) [0..<c]\<rparr>)"

definition np_squeeze :: "ndarray \<Rightarrow> ndarray" where
  "np_squeeze A = A\<lparr>shape := filter (\<lambda>d. d \<noteq> 1) (shape A)\<rparr>"

subsection \<open>The evaluation\<close>

text \<open>
  Lines 215-321, after the paths are tiled: grouping, the four batched evaluations,
  the Collection sums, the rotation into the sensor frames and the output shape.
\<close>

definition compute ::
  "formula \<Rightarrow> bool \<Rightarrow> store \<Rightarrow> src_entry list \<Rightarrow> nat list \<Rightarrow> nat list \<Rightarrow> nat list \<Rightarrow>
   bool list \<Rightarrow> bool list \<Rightarrow> nat \<Rightarrow> bool \<Rightarrow> bool \<Rightarrow> ndarray outcome" where
  "compute F bh h sources src_list sensors pix_shape unrotated static m sumup squeeze =
     (let l0 = length sources; l = length src_list; k = length sensors;
          poso = observer_positions h sensors m;
          mn = length poso;
          n = mn div m
      in case group_sources h (enumerate 0 src_list) ([[], [], [], []], [[], [], [], []]) of
           Inl e \<Rightarrow> (Inl e, [])
         | Inr (src_sorted, order) \<Rightarrow>
             then_do (for_loop (eval_group F bh h src_sorted order poso m n) [0, 1, 2, 3]
                        (replicate l (replicate m (replicate n vzero))))
               (\<lambda>B. then_do (if l > l0 then for_loop (sum_entry m n) (enumerate 0 sources) B
                              else (Inr B, []))
               (\<lambda>B. let k_pixel = prod_list (butlast pix_shape) in
                     then_do (for_loop (rot_sensor h unrotated static k_pixel l0 m)
                                (enumerate 0 sensors) B)
               (\<lambda>B. case np_reshape ([l0, m] @ [k] @ pix_shape) B of
                       Inl e \<Rightarrow> (Inl e, [])
                     | Inr B \<Rightarrow>
                         (let B = (if sumup then np_sum0 B else B);
                              B = (if squeeze then np_squeeze B else B)
                          in (Inr B, []))))))"

text \<open>
  \<open>getBH_level2\<close>: the result or the error raised, the object store as the call
  leaves it, and the events of the call.
\<close>

text \<open>Lines 190-203 and 323-326 around the computation: tile, compute, and reset the
  tiled objects when the computation has returned.\<close>

definition tiled_compute ::
  "formula \<Rightarrow> bool \<Rightarrow> store \<Rightarrow> src_entry list \<Rightarrow> nat list \<Rightarrow> nat list \<Rightarrow> nat list \<Rightarrow>
   bool list \<Rightarrow> bool list \<Rightarrow> nat \<Rightarrow> bool \<Rightarrow> bool \<Rightarrow> (error + ndarray) \<times> store \<times> event list" where
  "tiled_compute F bh h sources src_list sensors pix_shape unrotated static m sumup squeeze =
     (let obj_list = src_list @ sensors;
          tiled = (if m > 1 then tile_up m obj_list h [] else (h, []));
          h = fst tiled; reset_objects = snd tiled;
          res = compute F bh h sources src_list sensors pix_shape unrotated static m sumup squeeze
      in case fst res of
           Inl e \<Rightarrow> (Inl e, h, snd res)
         | Inr B \<Rightarrow> (Inr B, reset_tiled reset_objects h, snd res))"

text \<open>Line 138: a single source (or Collection) is put into a list.\<close>

fun as_list :: "'a arg \<Rightarrow> 'a list" where
  "as_list (Single s) = [s]"
| "as_list (Listed ss) = ss"

definition shape_msg :: string where
  "shape_msg = ''Different observer input shapes not allowed. All pos_pix and pos_obs input shapes must be similar !''"

text \<open>
  \<open>getBH_level2\<close>: the result or the error raised, the object store as the call
  leaves it, and the events of the call.
\<close>

definition getBH_level2 ::
  "formula \<Rightarrow> bool \<Rightarrow> src_entry arg \<Rightarrow> observers_arg \<Rightarrow> bool \<Rightarrow> bool \<Rightarrow> store \<Rightarrow>
   (error + ndarray) \<times> store \<times> event list" where
  "getBH_level2 F bh sources observers sumup squeeze h0 =
     (let sources = as_list sources;
          src_list = format_obj_input sources
      in case format_observers observers h0 of
           Inl e \<Rightarrow> (Inl e, h0, [])
         | Inr sh \<Rightarrow>
             let sensors = fst sh; h = snd sh;
                 pix_shapes = map (\<lambda>sens. shape (pos_pix (h ! sens))) sensors
             in if \<not> all_same pix_shapes then (Inl (MagpylibBadUserInput shape_msg), h, [])
                else
                  let pix_shape = pix_shapes ! 0;
                      unrotated = unrotated_sensors h sensors;
                      static = static_sensor_rot h sensors;
                      obj_list = src_list @ sensors
                  in case get_good_path_length h obj_list of
                       Inl e \<Rightarrow> (Inl e, h, [])
                     | Inr m \<Rightarrow>
                         tiled_compute F bh h sources src_list sensors pix_shape unrotated
                           static m sumup squeeze)"

section \<open>The frame transforms of \<open>Cube.getB\<close>\<close>

text \<open>
  The Cube of \<open>_lib/classes/magnets.py\<close> with the attributes of its base class.  The
  rotation \<open>angleAxisRotation\<close> and the formula \<open>Bfield_Cube\<close> are imported from
  modules that are not part of the sources at hand; they are parameters here.
\<close>

record Cube =
  position :: vec
  angle :: real
  axis :: vec
  magnetization :: vec
  dimension :: vec

fun vneg :: "vec \<Rightarrow> vec" where
  "vneg (x, y, z) = (- x, - y, - z)"

definition Cube_getB ::
  "(real \<Rightarrow> vec \<Rightarrow> vec \<Rightarrow> vec) \<Rightarrow> (vec \<Rightarrow> vec \<Rightarrow> vec \<Rightarrow> vec) \<Rightarrow> Cube \<Rightarrow> vec \<Rightarrow> vec" where
  "Cube_getB angleAxisRotation Bfield_Cube self p1 =
     (let posRel = vsub p1 (position self);
          p21newCm = angleAxisRotation (angle self) (vneg (axis self)) posRel;
          BCm = Bfield_Cube (magnetization self) p21newCm (dimension self);
          B = angleAxisRotation (angle self) (axis self) BCm
      in B)"

section \<open>Example objects\<close>

text \<open>A formula, a rotation and some objects for evaluating the definitions on concrete
  inputs.\<close>

definition example_formula :: formula where
  "example_formula bh ty exc d p = vadd exc p"

text \<open>The half turn about a unit axis \<open>k\<close>: \<open>v \<mapsto> 2 (k \<cdot> v) k - v\<close>.\<close>

fun half_turn :: "real \<Rightarrow> vec \<Rightarrow> vec \<Rightarrow> vec" where
  "half_turn a (kx, ky, kz) (x, y, z) =
     (2 * (kx*x + ky*y + kz*z) * kx - x, 2 * (kx*x + ky*y + kz*z) * ky - y,
      2 * (kx*x + ky*y + kz*z) * kz - z)"

definition example_obj :: "obj_class \<Rightarrow> vec list \<Rightarrow> quat list \<Rightarrow> vec \<Rightarrow> geo" where
  "example_obj c ps rs e =
     \<lparr>obj_class = c, pos = ps, rot = rs, mag = e, dim = [1, 1, 1], moment = e,
      pos_pix = \<lparr>shape = [3], rows = [(0, 0, 0)]\<rparr>\<rparr>"

definition example_store :: store where
  "example_store =
     [example_obj Box [(0, 0, 0)] [unitQ] (0, 0, 1),
      example_obj Dipole [(1, 0, 0)] [unitQ] (0, 1, 0),
      example_obj Box [(0, 0, 1), (0, 0, 2)] [unitQ, (0, 0, 1, 0)] (1, 0, 0),
      example_obj Sensor [(5, 5, 5)] [(1, 0, 0, 0)] (0, 0, 0),
      example_obj Unknown [(0, 0, 0)] [unitQ] (0, 0, 1),
      example_obj Sensor [(5, 5, 5), (6, 5, 5)] [(1, 0, 0, 0), (0, 1, 0, 0)] (0, 0, 0),
      example_obj Box (replicate 3 (0, 0, 0)) (replicate 3 unitQ) (0, 0, 1),
      example_obj Box (replicate 5 (0, 0, 0)) (replicate 5 unitQ) (0, 0, 1)]"

section \<open>What the stages compute\<close>

definition well_shaped :: "nat \<Rightarrow> nat \<Rightarrow> tensor \<Rightarrow> bool" where
  "well_shaped m n T = (\<forall>b \<in> set T. length b = m \<and> (\<forall>r \<in> set b. length r = n))"

definition src_field :: "formula \<Rightarrow> bool \<Rightarrow> store \<Rightarrow> nat \<Rightarrow> nat \<Rightarrow> vec \<Rightarrow> vec" where
  "src_field F bh h a j po =
     (if obj_class (h ! a) = Dipole
      then level1_row F bh Dipole (moment (h ! a)) [] (pos (h ! a) ! j) (rot (h ! a) ! j) po
      else level1_row F bh (obj_class (h ! a)) (mag (h ! a)) (dim (h ! a)) (pos (h ! a) ! j)
             (rot (h ! a) ! j) po)"

definition world_rows :: "formula \<Rightarrow> bool \<Rightarrow> store \<Rightarrow> vec list \<Rightarrow> nat \<Rightarrow> nat \<Rightarrow> nat \<Rightarrow> vec list list" where
  "world_rows F bh h poso m n a =
     map (\<lambda>j. map (\<lambda>q. src_field F bh h a j (poso ! (j * n + q))) [0..<n]) [0..<m]"

definition family_members :: "store \<Rightarrow> nat list \<Rightarrow> obj_class \<Rightarrow> nat list" where
  "family_members h src_list c = filter (\<lambda>a. obj_class (h ! a) = c) src_list"

definition level1_events :: "bool \<Rightarrow> store \<Rightarrow> nat list \<Rightarrow> nat \<Rightarrow> nat \<Rightarrow> event list" where
  "level1_events bh h src_list m n =
     concat (map (\<lambda>c. if family_members h src_list c = [] then []
                       else [Level1 bh c (length (family_members h src_list c) * m * n)])
              [Box, Cylinder, Sphere, Dipole])"

definition entry_rows :: "(nat \<Rightarrow> vec list list) \<Rightarrow> nat \<Rightarrow> nat \<Rightarrow> src_entry \<Rightarrow> vec list list" where
  "entry_rows W m n e = (case e of Obj a \<Rightarrow> W a | Collection srcs \<Rightarrow> sum_axis0 m n (map W srcs))"

fun sum_event :: "nat \<times> src_entry \<Rightarrow> event list" where
  "sum_event (i, Obj a) = []"
| "sum_event (i, Collection srcs) = [SumMembers i (length srcs)]"

definition rotate_every_step :: "store \<Rightarrow> nat \<Rightarrow> nat \<Rightarrow> nat \<Rightarrow> tensor \<Rightarrow> tensor" where
  "rotate_every_step h sens i k_pixel B =
     map (\<lambda>b. map (\<lambda>j. rot_part (rot (h ! sens) ! j) (i * k_pixel) ((i + 1) * k_pixel) (b ! j))
                 [0..<length b]) B"

fun rot_events :: "store \<Rightarrow> bool list \<Rightarrow> bool list \<Rightarrow> nat \<Rightarrow> nat \<Rightarrow> nat \<Rightarrow> nat \<times> nat \<Rightarrow> event list" where
  "rot_events h unrotated static k_pixel l0 m (i, sens) =
     (if unrotated ! i then []
      else if static ! i then [RotBack i (rot (h ! sens) ! 0) (k_pixel * l0 * m)]
      else map (\<lambda>j. RotBack i (rot (h ! sens) ! j) (k_pixel * l0)) [0..<m])"

definition rotated_upto :: "store \<Rightarrow> nat list \<Rightarrow> nat \<Rightarrow> nat \<Rightarrow> nat \<Rightarrow> vec list list \<Rightarrow> vec list list" where
  "rotated_upto h sensors k_pixel m t b =
     map (\<lambda>j. map (\<lambda>x. if fst x < t
                         then apply_q (inv_q (rot (h ! (sensors ! fst x)) ! j)) (b ! j ! (fst x * k_pixel + snd x))
                         else b ! j ! (fst x * k_pixel + snd x))
                (List.product [0..<length sensors] [0..<k_pixel])) [0..<m]"

definition path_at :: "'a list \<Rightarrow> nat \<Rightarrow> 'a" where
  "path_at xs j = (if length xs = 1 then xs ! 0 else xs ! j)"

definition obs_point :: "geo \<Rightarrow> nat \<Rightarrow> nat \<Rightarrow> vec" where
  "obs_point sens j q =
     vadd (apply_q (path_at (rot sens) j) (rows (pos_pix sens) ! q)) (path_at (pos sens) j)"

definition source_field :: "formula \<Rightarrow> bool \<Rightarrow> geo \<Rightarrow> nat \<Rightarrow> vec \<Rightarrow> vec" where
  "source_field F bh src j po =
     (if obj_class src = Dipole
      then level1_row F bh Dipole (moment src) [] (path_at (pos src) j) (path_at (rot src) j) po
      else level1_row F bh (obj_class src) (mag src) (dim src) (path_at (pos src) j)
             (path_at (rot src) j) po)"

definition entry_field :: "formula \<Rightarrow> bool \<Rightarrow> store \<Rightarrow> src_entry \<Rightarrow> nat \<Rightarrow> vec \<Rightarrow> vec" where
  "entry_field F bh h e j po =
     (case e of
        Obj a \<Rightarrow> source_field F bh (h ! a) j po
      | Collection srcs \<Rightarrow> vsum (map (\<lambda>a. source_field F bh (h ! a) j po) srcs))"

definition sensor_field :: "formula \<Rightarrow> bool \<Rightarrow> store \<Rightarrow> src_entry \<Rightarrow> nat \<Rightarrow> nat \<Rightarrow> nat \<Rightarrow> vec" where
  "sensor_field F bh h e sens j q =
     apply_q (inv_q (path_at (rot (h ! sens)) j)) (entry_field F bh h e j (obs_point (h ! sens) j q))"

definition field_tensor ::
  "formula \<Rightarrow> bool \<Rightarrow> store \<Rightarrow> src_entry list \<Rightarrow> nat list \<Rightarrow> nat \<Rightarrow> nat \<Rightarrow> tensor" where
  "field_tensor F bh h sources sensors m k_pixel =
     map (\<lambda>e. map (\<lambda>j. map (\<lambda>x. sensor_field F bh h e (sensors ! fst x) j (snd x))
                          (List.product [0..<length sensors] [0..<k_pixel])) [0..<m]) sources"

definition finish :: "bool \<Rightarrow> bool \<Rightarrow> ndarray \<Rightarrow> ndarray" where
  "finish sumup squeeze A =
     (let B = (if sumup then np_sum0 A else A) in if squeeze then np_squeeze B else B)"

definition compute_events ::
  "bool \<Rightarrow> store \<Rightarrow> src_entry list \<Rightarrow> nat list \<Rightarrow> nat list \<Rightarrow> bool list \<Rightarrow> bool list \<Rightarrow> nat \<Rightarrow> nat \<Rightarrow> event list" where
  "compute_events bh h sources src_list sensors unrotated static k_pixel m =
     level1_events bh h src_list m (length sensors * k_pixel)
     @ (if length src_list > length sources then concat (map sum_event (enumerate 0 sources)) else [])
     @ concat (map (rot_events h unrotated static k_pixel (length sources) m) (enumerate 0 sensors))"

definition tiled_store :: "nat \<Rightarrow> nat list \<Rightarrow> store \<Rightarrow> store" where
  "tiled_store m obj_list h = fst (if m > 1 then tile_up m obj_list h [] else (h, []))"

definition good_paths :: "store \<Rightarrow> nat list \<Rightarrow> nat \<Rightarrow> bool" where
  "good_paths h obj_list m =
     (\<forall>a \<in> set obj_list. a < length h \<and> length (rot (h ! a)) = length (pos (h ! a))
        \<and> (length (pos (h ! a)) = 1 \<or> length (pos (h ! a)) = m))"

definition wf_obj :: "store \<Rightarrow> nat \<Rightarrow> bool" where
  "wf_obj h a = (a < length h \<and> pos (h ! a) \<noteq> [] \<and> length (rot (h ! a)) = length (pos (h ! a)))"

definition wf_pix :: "ndarray \<Rightarrow> bool" where
  "wf_pix A = (shape A \<noteq> [] \<and> last (shape A) = 3 \<and> length (rows A) = prod_list (butlast (shape A)))"

fun quarter_turn :: "real \<Rightarrow> vec \<Rightarrow> vec \<Rightarrow> vec" where
  "quarter_turn a (kx, ky, kz) (x, y, z) = (- kz * y, kz * x, z)"

definition example_Bfield :: "vec \<Rightarrow> vec \<Rightarrow> vec \<Rightarrow> vec" where
  "example_Bfield mg p d = vadd mg (vadd p p)"

definition example_cube :: Cube where
  "example_cube = \<lparr>position = (1, 0, 0), angle = 90, axis = (0, 0, 1), magnetization = (0, 0, 1),
     dimension = (1, 1, 1)\<rparr>"

definition example_store2 :: store where
  "example_store2 = example_store @ [Sensor_new \<lparr>shape = [3], rows = [(0, 0, 0)]\<rparr>]"

text \<open>The stage of the evaluation that an event belongs to: the batched field
  computation, the sum over the members of a Collection, the rotation into a sensor
  frame.\<close>

fun stage :: "event \<Rightarrow> nat" where
  "stage (Level1 bh ty n) = 0"
| "stage (SumMembers i n) = 1"
| "stage (RotBack i q n) = 2"

text \<open>
  What a call needs to run through: the observers have one pixel shape and the path
  lengths are 1 or \<open>m\<close> (the two input checks), the objects are as their classes keep
  them (a non-empty path, position and orientation path of the same length, a pixel array
  of 3-vectors), every flattened source is of a recognised family and no Collection is
  empty.
\<close>

definition good_call :: "store \<Rightarrow> src_entry list \<Rightarrow> nat list \<Rightarrow> nat \<Rightarrow> bool" where
  "good_call h sources sensors m =
     (all_same (map (\<lambda>sens. shape (pos_pix (h ! sens))) sensors)
      \<and> get_good_path_length h (format_obj_input sources @ sensors) = Inr m
      \<and> (\<forall>a \<in> set (format_obj_input sources @ sensors). wf_obj h a)
      \<and> (\<forall>s \<in> set sensors. wf_pix (pos_pix (h ! s)))
      \<and> (\<forall>a \<in> set (format_obj_input sources). obj_class (h ! a) \<in> {Box, Cylinder, Sphere, Dipole})
      \<and> (\<forall>e \<in> set sources. members e \<noteq> []))"

section \<open>Properties\<close>

subsection \<open>Basic facts\<close>

lemma then_do_Inl [simp]: "then_do (Inl e, evs) f = (Inl e, evs)"
  by (simp add: then_do_def)

lemma then_do_Inr [simp]: "then_do (Inr x, evs) f = (fst (f x), evs @ snd (f x))"
  by (simp add: then_do_def split: prod.splits)

lemma tile_up_length: "length (fst (tile_up m objs h rs)) = length h"
  by (induction objs arbitrary: h rs) simp_all

lemma tile_up_class:
  "obj_class (fst (tile_up m objs h rs) ! a) = obj_class (h ! a)"
proof (induction objs arbitrary: h rs)
  case Nil
  then show ?case by simp
next
  case (Cons obj objs)
  have "obj_class (h[obj := tile_obj m (h ! obj)] ! a) = obj_class (h ! a)"
    by (cases "obj < length h"; cases "a = obj") (simp_all add: tile_obj_def list_update_beyond)
  with Cons show ?case by simp
qed

lemma group_sources_unrecognized:
  assumes "\<exists>x \<in> set xs. obj_class (h ! snd x) \<notin> {Box, Cylinder, Sphere, Dipole}"
  shows "group_sources h xs acc = Inl (MagpylibBadUserInput ''Unrecognized object in sources input'')"
  using assms
proof (induction xs arbitrary: acc)
  case Nil
  then show ?case by simp
next
  case (Cons x xs)
  obtain i src where x: "x = (i, src)" by (cases x)
  obtain ss ord where acc: "acc = (ss, ord)" by (cases acc)
  show ?case
  proof (cases "obj_class (h ! src) \<in> {Box, Cylinder, Sphere, Dipole}")
    case True
    with Cons.prems x have "\<exists>x \<in> set xs. obj_class (h ! snd x) \<notin> {Box, Cylinder, Sphere, Dipole}"
      by auto
    from Cons.IH [OF this] show ?thesis
      by (simp add: x acc)
  next
    case False
    then show ?thesis by (simp add: x acc)
  qed
qed

lemma snd_enumerate_set: "snd ` set (enumerate n xs) = set xs"
  by (induction xs arbitrary: n) auto

lemma compute_unrecognized:
  assumes "\<exists>a \<in> set src_list. obj_class (h ! a) \<notin> {Box, Cylinder, Sphere, Dipole}"
  shows "compute F bh h sources src_list sensors pix_shape unrotated static m sumup squeeze =
    (Inl (MagpylibBadUserInput ''Unrecognized object in sources input''), [])"
proof -
  from assms obtain a where a: "a \<in> set src_list" "obj_class (h ! a) \<notin> {Box, Cylinder, Sphere, Dipole}"
    by blast
  from a(1) have "a \<in> snd ` set (enumerate 0 src_list)" by (simp add: snd_enumerate_set)
  with a(2) have "\<exists>x \<in> set (enumerate 0 src_list). obj_class (h ! snd x) \<notin> {Box, Cylinder, Sphere, Dipole}"
    by auto
  then show ?thesis
    by (simp add: compute_def group_sources_unrecognized Let_def)
qed

text \<open>
  Claim C6, as amended: when the observers are formatted, their pixel shapes agree and the
  path lengths are good, a call with a flattened source that is neither a Box, a Cylinder,
  a Sphere nor a Dipole raises the error of the grouping loop, and no batched formula call
  (nor any other event) has happened.
\<close>

theorem C6_unrecognized_source_raises:
  assumes "format_observers observers h0 = Inr (sensors, h)"
    and "all_same (map (\<lambda>sens. shape (pos_pix (h ! sens))) sensors)"
    and "get_good_path_length h (format_obj_input (as_list sources) @ sensors) = Inr m"
    and "\<exists>a \<in> set (format_obj_input (as_list sources)). obj_class (h ! a) \<notin> {Box, Cylinder, Sphere, Dipole}"
  shows "fst (getBH_level2 F bh sources observers sumup squeeze h0) =
           Inl (MagpylibBadUserInput ''Unrecognized object in sources input'')
       \<and> snd (snd (getBH_level2 F bh sources observers sumup squeeze h0)) = []"
proof -
  let ?src = "format_obj_input (as_list sources)"
  let ?t = "if m > 1 then tile_up m (?src @ sensors) h [] else (h, [])"
  have "\<exists>a \<in> set ?src. obj_class (fst ?t ! a) \<notin> {Box, Cylinder, Sphere, Dipole}"
    using assms(4) by (simp add: tile_up_class)
  then have "compute F bh (fst ?t) (as_list sources) ?src sensors
      (map (\<lambda>sens. shape (pos_pix (h ! sens))) sensors ! 0) (unrotated_sensors h sensors)
      (static_sensor_rot h sensors) m sumup squeeze =
    (Inl (MagpylibBadUserInput ''Unrecognized object in sources input''), [])"
    by (rule compute_unrecognized)
  then show ?thesis
    using assms(1-3) by (simp add: getBH_level2_def tiled_compute_def Let_def)
qed

text \<open>The sources are a Box and an unrecognized object, the observer a sensor with a path
  of length 2.\<close>

theorem C6_unrecognized_source_raises_witness:
  "format_observers (ObsSensor 5) example_store = Inr ([5], example_store)
   \<and> all_same (map (\<lambda>sens. shape (pos_pix (example_store ! sens))) [5])
   \<and> get_good_path_length example_store (format_obj_input (as_list (Listed [Obj 0, Obj 4])) @ [5]) = Inr 2
   \<and> (\<exists>a \<in> set (format_obj_input (as_list (Listed [Obj 0, Obj 4]))).
         obj_class (example_store ! a) \<notin> {Box, Cylinder, Sphere, Dipole})
   \<and> fst (getBH_level2 example_formula True (Listed [Obj 0, Obj 4]) (ObsSensor 5) False False example_store) =
           Inl (MagpylibBadUserInput ''Unrecognized object in sources input'')
   \<and> snd (snd (getBH_level2 example_formula True (Listed [Obj 0, Obj 4]) (ObsSensor 5) False False example_store)) = []"
proof -
  have h1: "format_observers (ObsSensor 5) example_store = Inr ([5], example_store)"
    by simp
  have h2: "all_same (map (\<lambda>sens. shape (pos_pix (example_store ! sens))) [5])"
    by (simp add: all_same_def)
  have h3: "get_good_path_length example_store (format_obj_input (as_list (Listed [Obj 0, Obj 4])) @ [5]) = Inr 2"
    by code_simp
  have h4: "\<exists>a \<in> set (format_obj_input (as_list (Listed [Obj 0, Obj 4]))).
         obj_class (example_store ! a) \<notin> {Box, Cylinder, Sphere, Dipole}"
    by code_simp
  from C6_unrecognized_source_raises [OF h1 h2 h3 h4, of example_formula True False False] h1 h2 h3 h4
  show ?thesis by blast
qed

text \<open>
  Claim C6 as stated fails: with an unrecognized source and two observers of different
  pixel shapes the call raises the shape error of the sensor checks, before the grouping.
\<close>

theorem C6_unrecognized_source_counterexample:
  "obj_class (example_store ! 4) = Unknown
   \<and> fst (getBH_level2 example_formula True (Listed [Obj 4])
        (ObsList [SensorObj 3, PosObs \<lparr>shape = [2, 3], rows = [(1, 2, 3), (4, 5, 6)]\<rparr>])
        False False example_store) = Inl (MagpylibBadUserInput shape_msg)
   \<and> fst (getBH_level2 example_formula True (Listed [Obj 4])
        (ObsList [SensorObj 3, PosObs \<lparr>shape = [2, 3], rows = [(1, 2, 3), (4, 5, 6)]\<rparr>])
        False False example_store) \<noteq> Inl (MagpylibBadUserInput ''Unrecognized object in sources input'')"
  by code_simp

text \<open>
  Claim C2 on the error path: a Box with path length 1 is evaluated together with an
  unrecognized object at a sensor with a path of length 2.  The grouping raises after
  the Box has been tiled, and the call leaves the Box with a path of length 2.
\<close>

theorem C2_error_path_leaves_tiled:
  "getBH_level2 example_formula True (Listed [Obj 0, Obj 4]) (ObsSensor 5) False False example_store =
     (Inl (MagpylibBadUserInput ''Unrecognized object in sources input''),
      example_store[0 := tile_obj 2 (example_store ! 0), 4 := tile_obj 2 (example_store ! 4)], [])
   \<and> pos (example_store ! 0) = [(0, 0, 0)]
   \<and> pos (fst (snd (getBH_level2 example_formula True (Listed [Obj 0, Obj 4]) (ObsSensor 5) False False
        example_store)) ! 0) = [(0, 0, 0), (0, 0, 0)]"
  by code_simp

lemma fold_max_Max: "xs \<noteq> [] \<Longrightarrow> fold max xs (0::nat) = Max (set xs)"
proof -
  assume "xs \<noteq> []"
  have "fold max xs (0::nat) = Max (set (0 # xs))"
    by (simp only: Max.set_eq_fold)
  also have "\<dots> = Max (set xs)"
    using \<open>xs \<noteq> []\<close> by (simp add: max_def)
  finally show ?thesis .
qed

text \<open>
  Claim C5, as amended: when the observers argument is formatted into sensors and these
  have different pixel shapes, or some participating object
  has a path length that is neither 1 nor the maximum of all path lengths, the call raises
  the input error; no event has happened (no formula is invoked) and no object is tiled.
\<close>

theorem C5_bad_input_shape_raises:
  assumes "format_observers observers h0 = Inr (sensors, h)"
    and "\<not> all_same (map (\<lambda>sens. shape (pos_pix (h ! sens))) sensors)
       \<or> (\<exists>a \<in> set (format_obj_input (as_list sources) @ sensors).
             length (pos (h ! a)) \<noteq> 1
           \<and> length (pos (h ! a)) \<noteq>
               Max (set (map (\<lambda>a. length (pos (h ! a))) (format_obj_input (as_list sources) @ sensors))))"
  shows "getBH_level2 F bh sources observers sumup squeeze h0 =
           (Inl (MagpylibBadUserInput
                  (if \<not> all_same (map (\<lambda>sens. shape (pos_pix (h ! sens))) sensors) then shape_msg
                   else ''Bad path format'')), h, [])"
proof (cases "all_same (map (\<lambda>sens. shape (pos_pix (h ! sens))) sensors)")
  case False
  with assms(1) show ?thesis
    by (simp add: getBH_level2_def Let_def)
next
  case True
  let ?objs = "format_obj_input (as_list sources) @ sensors"
  let ?pls = "map (\<lambda>a. length (pos (h ! a))) ?objs"
  from True assms(2) obtain a where a: "a \<in> set ?objs" "length (pos (h ! a)) \<noteq> 1"
    "length (pos (h ! a)) \<noteq> Max (set ?pls)"
    by blast
  from a(1) have ne: "?pls \<noteq> []" by auto
  have mx: "fold max ?pls 0 = Max (set ?pls)"
    by (rule fold_max_Max [OF ne])
  have mem: "length (pos (h ! a)) \<in> set ?pls"
    using a(1) by auto
  have "\<not> list_all (\<lambda>pl. pl = 1 \<or> pl = fold max ?pls 0) ?pls"
    unfolding list_all_iff mx using mem a(2,3) by blast
  then have "get_good_path_length h ?objs = Inl (MagpylibBadUserInput ''Bad path format'')"
    by (simp add: get_good_path_length_def Let_def)
  with True assms(1) show ?thesis
    by (simp add: getBH_level2_def Let_def)
qed

text \<open>Two sources with path lengths 3 and 5.\<close>

theorem C5_bad_input_shape_raises_witness:
  "format_observers (ObsArray \<lparr>shape = [3], rows = [(1, 2, 3)]\<rparr>) example_store =
     Inr ([8], example_store @ [Sensor_new \<lparr>shape = [3], rows = [(1, 2, 3)]\<rparr>])
   \<and> getBH_level2 example_formula True (Listed [Obj 6, Obj 7])
       (ObsArray \<lparr>shape = [3], rows = [(1, 2, 3)]\<rparr>) False False example_store =
       (Inl (MagpylibBadUserInput ''Bad path format''),
        example_store @ [Sensor_new \<lparr>shape = [3], rows = [(1, 2, 3)]\<rparr>], [])"
proof -
  let ?h = "example_store @ [Sensor_new \<lparr>shape = [3], rows = [(1, 2, 3)]\<rparr>]"
  have h1: "format_observers (ObsArray \<lparr>shape = [3], rows = [(1, 2, 3)]\<rparr>) example_store = Inr ([8], ?h)"
    by (simp add: example_store_def)
  have h2: "\<not> all_same (map (\<lambda>sens. shape (pos_pix (?h ! sens))) [8])
       \<or> (\<exists>a \<in> set (format_obj_input (as_list (Listed [Obj 6, Obj 7])) @ [8]).
             length (pos (?h ! a)) \<noteq> 1
           \<and> length (pos (?h ! a)) \<noteq>
               Max (set (map (\<lambda>a. length (pos (?h ! a))) (format_obj_input (as_list (Listed [Obj 6, Obj 7])) @ [8]))))"
    by (simp add: format_obj_input_def example_store_def example_obj_def Sensor_new_def)
  have h3: "all_same (map (\<lambda>sens. shape (pos_pix (?h ! sens))) [8])"
    by (simp add: all_same_def)
  from C5_bad_input_shape_raises [OF h1 h2, of example_formula True False False] h1 h3
  show ?thesis by simp
qed

text \<open>
  Claim C5 as stated fails: two sources with path lengths 3 and 5 are evaluated at a list
  of two bare positions of different shapes.  The list is no array, the wrapping of line
  155 raises a \<open>ValueError\<close> before the checks of lines 162 and 194 are reached, and the
  input error of the claim is not raised.
\<close>

theorem C5_bad_input_shape_counterexample:
  "length (pos (example_store ! 6)) = 3 \<and> length (pos (example_store ! 7)) = 5
   \<and> getBH_level2 example_formula True (Listed [Obj 6, Obj 7])
        (ObsList [PosObs \<lparr>shape = [3], rows = [(1, 2, 3)]\<rparr>,
                  PosObs \<lparr>shape = [2, 3], rows = [(1, 2, 3), (4, 5, 6)]\<rparr>])
        False False example_store = (Inl ValueError, example_store, [])"
  by code_simp

section \<open>The stages of a good call\<close>

subsection \<open>Lists of blocks\<close>

lemma concat_uniform_length:
  "(\<And>x. x \<in> set xss \<Longrightarrow> length x = c) \<Longrightarrow> length (concat xss) = length xss * c"
  by (induction xss) simp_all

lemma take_drop_concat_uniform:
  "(\<And>x. x \<in> set xss \<Longrightarrow> length x = c) \<Longrightarrow> i < length xss \<Longrightarrow>
   take c (drop (i * c) (concat xss)) = xss ! i"
proof (induction xss arbitrary: i)
  case Nil
  then show ?case by simp
next
  case (Cons xs xss)
  show ?case
  proof (cases i)
    case 0
    with Cons.prems show ?thesis by simp
  next
    case (Suc i')
    with Cons.prems have "i' < length xss" by simp
    with Cons have "take c (drop (i' * c) (concat xss)) = xss ! i'" by simp
    with Cons.prems(1) [of xs] Suc show ?thesis by simp
  qed
qed

lemma concat_uniform_nth:
  assumes "\<And>x. x \<in> set xss \<Longrightarrow> length x = c" and "i < length xss" and "r < c"
  shows "concat xss ! (i * c + r) = xss ! i ! r"
proof -
  have len: "length (concat xss) = length xss * c"
    using assms(1) by (rule concat_uniform_length)
  have "i * c + c \<le> length xss * c"
  proof -
    from assms(2) have "Suc i \<le> length xss" by simp
    then have "Suc i * c \<le> length xss * c" by (rule mult_le_mono1)
    then show ?thesis by simp
  qed
  with assms(3) len have lt: "i * c + r < length (concat xss)" by simp
  have "xss ! i ! r = take c (drop (i * c) (concat xss)) ! r"
    using assms by (simp add: take_drop_concat_uniform)
  also have "\<dots> = concat xss ! (i * c + r)"
    using assms(3) lt by simp
  finally show ?thesis by simp
qed

lemma map_nth_upt: "map (\<lambda>i. f (xs ! i)) [0..<length xs] = map f xs"
  by (rule nth_equalityI) simp_all

text \<open>Reshaping the flattened rows of a well-shaped array gives the array back.\<close>

lemma reshape_lmn_concat:
  assumes "well_shaped m n T"
  shows "reshape_lmn (length T) m n (concat (concat T)) = Inr T"
proof -
  have rows_n: "\<And>r. r \<in> set (concat T) \<Longrightarrow> length r = n"
    using assms by (auto simp: well_shaped_def)
  have blocks_m: "\<And>b. b \<in> set T \<Longrightarrow> length b = m"
    using assms by (auto simp: well_shaped_def)
  have len1: "length (concat T) = length T * m"
    using blocks_m by (rule concat_uniform_length)
  have len2: "length (concat (concat T)) = length T * m * n"
    using concat_uniform_length [of "concat T" n] rows_n len1 by simp
  have "map (\<lambda>i. map (\<lambda>j. take n (drop ((i * m + j) * n) (concat (concat T)))) [0..<m]) [0..<length T] = T"
  proof (rule nth_equalityI)
    show "length (map (\<lambda>i. map (\<lambda>j. take n (drop ((i * m + j) * n) (concat (concat T)))) [0..<m]) [0..<length T]) = length T"
      by simp
  next
    fix i
    assume "i < length (map (\<lambda>i. map (\<lambda>j. take n (drop ((i * m + j) * n) (concat (concat T)))) [0..<m]) [0..<length T])"
    then have i: "i < length T" by simp
    then have lb: "length (T ! i) = m" using blocks_m by simp
    have "map (\<lambda>j. take n (drop ((i * m + j) * n) (concat (concat T)))) [0..<m] = T ! i"
    proof (rule nth_equalityI)
      show "length (map (\<lambda>j. take n (drop ((i * m + j) * n) (concat (concat T)))) [0..<m]) = length (T ! i)"
        using lb by simp
    next
      fix j
      assume "j < length (map (\<lambda>j. take n (drop ((i * m + j) * n) (concat (concat T)))) [0..<m])"
      then have j: "j < m" by simp
      have idx: "concat T ! (i * m + j) = T ! i ! j"
        using blocks_m i j by (rule concat_uniform_nth)
      have "i * m + m \<le> length T * m"
      proof -
        from i have "Suc i \<le> length T" by simp
        then have "Suc i * m \<le> length T * m" by (rule mult_le_mono1)
        then show ?thesis by simp
      qed
      with j len1 have lt: "i * m + j < length (concat T)" by simp
      have "take n (drop ((i * m + j) * n) (concat (concat T))) = concat T ! (i * m + j)"
        using rows_n lt by (rule take_drop_concat_uniform)
      with idx j show "map (\<lambda>j. take n (drop ((i * m + j) * n) (concat (concat T)))) [0..<m] ! j = T ! i ! j"
        by simp
    qed
    with i show "map (\<lambda>i. map (\<lambda>j. take n (drop ((i * m + j) * n) (concat (concat T)))) [0..<m]) [0..<length T] ! i = T ! i"
      by simp
  qed
  with len2 show ?thesis by (simp add: reshape_lmn_def)
qed

subsection \<open>Scattering rows\<close>

lemma scatter_rows:
  "length B = length W \<Longrightarrow>
   fold (\<lambda>i B. B[ord ! i := W ! (ord ! i)]) is B =
   map (\<lambda>t. if t \<in> (\<lambda>i. ord ! i) ` set is then W ! t else B ! t) [0..<length B]"
proof (induction "is" arbitrary: B)
  case Nil
  have "map ((!) B) [0..<length B] = B" by (rule map_nth)
  then show ?case by simp
next
  case (Cons i "is")
  let ?B1 = "B[ord ! i := W ! (ord ! i)]"
  have "length ?B1 = length W" using Cons.prems by simp
  from Cons.IH [OF this]
  have "fold (\<lambda>i B. B[ord ! i := W ! (ord ! i)]) is ?B1 =
        map (\<lambda>t. if t \<in> (\<lambda>i. ord ! i) ` set is then W ! t else ?B1 ! t) [0..<length B]"
    by simp
  also have "\<dots> = map (\<lambda>t. if t \<in> (\<lambda>i. ord ! i) ` set (i # is) then W ! t else B ! t) [0..<length B]"
    by (rule map_cong) (auto simp: nth_list_update)
  finally show ?case by simp
qed

subsection \<open>The grouping loop\<close>

lemma group_sources_ok:
  assumes "\<forall>x \<in> set xs. obj_class (h ! snd x) \<in> {Box, Cylinder, Sphere, Dipole}"
  shows "group_sources h xs ([s0, s1, s2, s3], [o0, o1, o2, o3]) =
    Inr ([s0 @ map snd (filter (\<lambda>x. obj_class (h ! snd x) = Box) xs),
          s1 @ map snd (filter (\<lambda>x. obj_class (h ! snd x) = Cylinder) xs),
          s2 @ map snd (filter (\<lambda>x. obj_class (h ! snd x) = Sphere) xs),
          s3 @ map snd (filter (\<lambda>x. obj_class (h ! snd x) = Dipole) xs)],
         [o0 @ map fst (filter (\<lambda>x. obj_class (h ! snd x) = Box) xs),
          o1 @ map fst (filter (\<lambda>x. obj_class (h ! snd x) = Cylinder) xs),
          o2 @ map fst (filter (\<lambda>x. obj_class (h ! snd x) = Sphere) xs),
          o3 @ map fst (filter (\<lambda>x. obj_class (h ! snd x) = Dipole) xs)])"
  using assms
proof (induction xs arbitrary: s0 s1 s2 s3 o0 o1 o2 o3)
  case Nil
  then show ?case by simp
next
  case (Cons x xs)
  obtain i src where x: "x = (i, src)" by (cases x)
  from Cons.prems have rest: "\<forall>x \<in> set xs. obj_class (h ! snd x) \<in> {Box, Cylinder, Sphere, Dipole}"
    by simp
  from Cons.prems x have "obj_class (h ! src) \<in> {Box, Cylinder, Sphere, Dipole}" by simp
  then consider "obj_class (h ! src) = Box" | "obj_class (h ! src) = Cylinder"
    | "obj_class (h ! src) = Sphere" | "obj_class (h ! src) = Dipole" by blast
  then show ?case
  proof cases
    case 1
    then show ?thesis using Cons.IH [OF rest] by (simp add: x)
  next
    case 2
    then show ?thesis using Cons.IH [OF rest] by (simp add: x)
  next
    case 3
    then show ?thesis using Cons.IH [OF rest] by (simp add: x)
  next
    case 4
    then show ?thesis using Cons.IH [OF rest] by (simp add: x)
  qed
qed

lemma enumerate_snd_nth:
  "x \<in> set (enumerate 0 xs) \<Longrightarrow> snd x = xs ! fst x \<and> fst x < length xs"
  by (auto simp: in_set_enumerate_eq)

lemma filter_enumerate_snd:
  "map snd (filter P (enumerate 0 xs)) = map (\<lambda>i. xs ! i) (map fst (filter P (enumerate 0 xs)))"
proof -
  have "map snd (filter P (enumerate 0 xs)) = map (\<lambda>x. xs ! fst x) (filter P (enumerate 0 xs))"
    by (rule map_cong) (auto dest: enumerate_snd_nth)
  then show ?thesis by (simp add: comp_def)
qed

lemma filter_enumerate_fst_set:
  "set (map fst (filter (\<lambda>x. Q (snd x)) (enumerate 0 xs))) = {i. i < length xs \<and> Q (xs ! i)}"
proof (rule set_eqI)
  fix i
  have "i \<in> set (map fst (filter (\<lambda>x. Q (snd x)) (enumerate 0 xs)))
      \<longleftrightarrow> (\<exists>a. (i, a) \<in> set (enumerate 0 xs) \<and> Q a)"
    by force
  also have "\<dots> \<longleftrightarrow> i < length xs \<and> Q (xs ! i)"
    by (auto simp: in_set_enumerate_eq)
  finally show "i \<in> set (map fst (filter (\<lambda>x. Q (snd x)) (enumerate 0 xs)))
      \<longleftrightarrow> i \<in> {i. i < length xs \<and> Q (xs ! i)}"
    by simp
qed

subsection \<open>The rows of one batched formula call\<close>

lemma zip_concat_blocks:
  "(\<And>x. x \<in> set xs \<Longrightarrow> length (f x) = length (g x)) \<Longrightarrow>
   zip (concat (map f xs)) (concat (map g xs)) = concat (map (\<lambda>x. zip (f x) (g x)) xs)"
  by (induction xs) simp_all

lemma tile_length: "length (concat (map (replicate n) ps)) = length ps * n"
  by (rule concat_uniform_length [of "map (replicate n) ps" n, simplified]) auto

lemma tile_nth:
  assumes "k < length ps * n"
  shows "concat (map (replicate n) ps) ! k = ps ! (k div n)"
proof -
  from assms have n: "0 < n" by (cases n) simp_all
  from assms have d: "k div n < length ps" by (simp add: less_mult_imp_div_less)
  have "concat (map (replicate n) ps) ! (k div n * n + k mod n) = map (replicate n) ps ! (k div n) ! (k mod n)"
    by (rule concat_uniform_nth) (use n d in auto)
  with n d show ?thesis by simp
qed

lemma source_block:
  assumes "length ps = m" and "length rs = m" and "length poso = m * n"
  shows "map (\<lambda>(exc, d, p, po, r). row exc d p r po)
           (zip (replicate (m * n) e) (zip (replicate (m * n) dm)
             (zip (concat (map (replicate n) ps)) (zip poso (concat (map (replicate n) rs))))))
       = concat (map (\<lambda>j. map (\<lambda>q. row e dm (ps ! j) (rs ! j) (poso ! (j * n + q))) [0..<n]) [0..<m])"
    (is "?L = ?R")
proof (rule nth_equalityI)
  have lr: "length ?R = m * n"
    by (rule concat_uniform_length [of "map (\<lambda>j. map (\<lambda>q. row e dm (ps ! j) (rs ! j) (poso ! (j * n + q))) [0..<n]) [0..<m]" n, simplified]) auto
  have ll: "length ?L = m * n"
    using assms by (simp add: tile_length)
  show "length ?L = length ?R" using lr ll by simp
  fix k
  assume "k < length ?L"
  with ll have k: "k < m * n" by simp
  then have n: "0 < n" by (cases n) simp_all
  from k have d: "k div n < m" by (simp add: less_mult_imp_div_less)
  have L: "?L ! k = row e dm (ps ! (k div n)) (rs ! (k div n)) (poso ! k)"
    using k assms by (simp add: tile_length tile_nth)
  have "?R ! (k div n * n + k mod n) =
        map (\<lambda>j. map (\<lambda>q. row e dm (ps ! j) (rs ! j) (poso ! (j * n + q))) [0..<n]) [0..<m] ! (k div n) ! (k mod n)"
    by (rule concat_uniform_nth) (use n d in auto)
  with n d have "?R ! k = row e dm (ps ! (k div n)) (rs ! (k div n)) (poso ! k)"
    by simp
  with L show "?L ! k = ?R ! k" by simp
qed

lemma source_block_dipole:
  assumes "length ps = m" and "length rs = m" and "length poso = m * n"
  shows "map (\<lambda>(exc, p, po, r). row exc p r po)
           (zip (replicate (m * n) e)
             (zip (concat (map (replicate n) ps)) (zip poso (concat (map (replicate n) rs)))))
       = concat (map (\<lambda>j. map (\<lambda>q. row e (ps ! j) (rs ! j) (poso ! (j * n + q))) [0..<n]) [0..<m])"
    (is "?L = ?R")
proof (rule nth_equalityI)
  have lr: "length ?R = m * n"
    by (rule concat_uniform_length [of "map (\<lambda>j. map (\<lambda>q. row e (ps ! j) (rs ! j) (poso ! (j * n + q))) [0..<n]) [0..<m]" n, simplified]) auto
  have ll: "length ?L = m * n"
    using assms by (simp add: tile_length)
  show "length ?L = length ?R" using lr ll by simp
  fix k
  assume "k < length ?L"
  with ll have k: "k < m * n" by simp
  then have n: "0 < n" by (cases n) simp_all
  from k have d: "k div n < m" by (simp add: less_mult_imp_div_less)
  have L: "?L ! k = row e (ps ! (k div n)) (rs ! (k div n)) (poso ! k)"
    using k assms by (simp add: tile_length tile_nth)
  have "?R ! (k div n * n + k mod n) =
        map (\<lambda>j. map (\<lambda>q. row e (ps ! j) (rs ! j) (poso ! (j * n + q))) [0..<n]) [0..<m] ! (k div n) ! (k mod n)"
    by (rule concat_uniform_nth) (use n d in auto)
  with n d have "?R ! k = row e (ps ! (k div n)) (rs ! (k div n)) (poso ! k)"
    by simp
  with L show "?L ! k = ?R ! k" by simp
qed

lemma level1_homo_mag:
  assumes ne: "grp \<noteq> []"
    and len: "\<And>s. s \<in> set grp \<Longrightarrow> length (pos (h ! s)) = m \<and> length (rot (h ! s)) = m"
    and lo: "length poso = m * n" and m: "0 < m"
  shows "getBH_level1 F bh ty (scr_dict_homo_mag h grp poso) =
    concat (map (\<lambda>s. concat (map (\<lambda>j. map (\<lambda>q. level1_row F bh ty (mag (h ! s)) (dim (h ! s))
        (pos (h ! s) ! j) (rot (h ! s) ! j) (poso ! (j * n + q))) [0..<n]) [0..<m])) grp)"
proof -
  let ?e = "\<lambda>s. replicate (m * n) (mag (h ! s))"
  let ?d = "\<lambda>s. replicate (m * n) (dim (h ! s))"
  let ?p = "\<lambda>s. concat (map (replicate n) (pos (h ! s)))"
  let ?r = "\<lambda>s. concat (map (replicate n) (rot (h ! s)))"
  let ?g = "\<lambda>(exc, d, p, po, r). level1_row F bh ty exc d p r po"
  from ne have "hd grp \<in> set grp" by simp
  then have m': "length (pos (h ! hd grp)) = m" using len by blast
  from m have n': "m * n div m = n" by simp
  have po: "concat (replicate (length grp) poso) = concat (map (\<lambda>s. poso) grp)"
    by (simp add: map_replicate_const)
  have c1: "zip (concat (map (\<lambda>s. poso) grp)) (concat (map ?r grp)) =
            concat (map (\<lambda>s. zip poso (?r s)) grp)"
    by (rule zip_concat_blocks) (simp add: tile_length len lo)
  have c2: "zip (concat (map ?p grp)) (concat (map (\<lambda>s. zip poso (?r s)) grp)) =
            concat (map (\<lambda>s. zip (?p s) (zip poso (?r s))) grp)"
    by (rule zip_concat_blocks) (simp add: tile_length len lo)
  have c3: "zip (concat (map ?d grp)) (concat (map (\<lambda>s. zip (?p s) (zip poso (?r s))) grp)) =
            concat (map (\<lambda>s. zip (?d s) (zip (?p s) (zip poso (?r s)))) grp)"
    by (rule zip_concat_blocks) (simp add: tile_length len lo)
  have c4: "zip (concat (map ?e grp)) (concat (map (\<lambda>s. zip (?d s) (zip (?p s) (zip poso (?r s)))) grp)) =
            concat (map (\<lambda>s. zip (?e s) (zip (?d s) (zip (?p s) (zip poso (?r s))))) grp)"
    by (rule zip_concat_blocks) (simp add: tile_length len lo)
  have "getBH_level1 F bh ty (scr_dict_homo_mag h grp poso) =
        map ?g (zip (concat (map ?e grp)) (zip (concat (map ?d grp)) (zip (concat (map ?p grp))
          (zip (concat (map (\<lambda>s. poso) grp)) (concat (map ?r grp))))))"
    by (simp add: scr_dict_homo_mag_def Let_def m' lo n' po)
  also have "\<dots> = map ?g (concat (map (\<lambda>s. zip (?e s) (zip (?d s) (zip (?p s) (zip poso (?r s))))) grp))"
    by (simp only: c1 c2 c3 c4)
  also have "\<dots> = concat (map (\<lambda>s. map ?g (zip (?e s) (zip (?d s) (zip (?p s) (zip poso (?r s)))))) grp)"
    by (simp add: map_concat comp_def)
  also have "\<dots> = concat (map (\<lambda>s. concat (map (\<lambda>j. map (\<lambda>q. level1_row F bh ty (mag (h ! s)) (dim (h ! s))
        (pos (h ! s) ! j) (rot (h ! s) ! j) (poso ! (j * n + q))) [0..<n]) [0..<m])) grp)"
  proof -
    have "\<And>s. s \<in> set grp \<Longrightarrow>
        map ?g (zip (?e s) (zip (?d s) (zip (?p s) (zip poso (?r s))))) =
        concat (map (\<lambda>j. map (\<lambda>q. level1_row F bh ty (mag (h ! s)) (dim (h ! s))
          (pos (h ! s) ! j) (rot (h ! s) ! j) (poso ! (j * n + q))) [0..<n]) [0..<m])"
      using len lo by (intro source_block) auto
    then show ?thesis by (auto intro!: arg_cong [where f = concat] map_cong)
  qed
  finally show ?thesis .
qed

lemma level1_dipole:
  assumes ne: "grp \<noteq> []"
    and len: "\<And>s. s \<in> set grp \<Longrightarrow> length (pos (h ! s)) = m \<and> length (rot (h ! s)) = m"
    and lo: "length poso = m * n" and m: "0 < m"
  shows "getBH_level1 F bh ty (scr_dict_dipole h grp poso) =
    concat (map (\<lambda>s. concat (map (\<lambda>j. map (\<lambda>q. level1_row F bh ty (moment (h ! s)) []
        (pos (h ! s) ! j) (rot (h ! s) ! j) (poso ! (j * n + q))) [0..<n]) [0..<m])) grp)"
proof -
  let ?e = "\<lambda>s. replicate (m * n) (moment (h ! s))"
  let ?p = "\<lambda>s. concat (map (replicate n) (pos (h ! s)))"
  let ?r = "\<lambda>s. concat (map (replicate n) (rot (h ! s)))"
  let ?g = "\<lambda>(exc, p, po, r). level1_row F bh ty exc [] p r po"
  from ne have "hd grp \<in> set grp" by simp
  then have m': "length (pos (h ! hd grp)) = m" using len by blast
  from m have n': "m * n div m = n" by simp
  have po: "concat (replicate (length grp) poso) = concat (map (\<lambda>s. poso) grp)"
    by (simp add: map_replicate_const)
  have c1: "zip (concat (map (\<lambda>s. poso) grp)) (concat (map ?r grp)) =
            concat (map (\<lambda>s. zip poso (?r s)) grp)"
    by (rule zip_concat_blocks) (simp add: tile_length len lo)
  have c2: "zip (concat (map ?p grp)) (concat (map (\<lambda>s. zip poso (?r s)) grp)) =
            concat (map (\<lambda>s. zip (?p s) (zip poso (?r s))) grp)"
    by (rule zip_concat_blocks) (simp add: tile_length len lo)
  have c4: "zip (concat (map ?e grp)) (concat (map (\<lambda>s. zip (?p s) (zip poso (?r s))) grp)) =
            concat (map (\<lambda>s. zip (?e s) (zip (?p s) (zip poso (?r s)))) grp)"
    by (rule zip_concat_blocks) (simp add: tile_length len lo)
  have "getBH_level1 F bh ty (scr_dict_dipole h grp poso) =
        map ?g (zip (concat (map ?e grp)) (zip (concat (map ?p grp))
          (zip (concat (map (\<lambda>s. poso) grp)) (concat (map ?r grp)))))"
    by (simp add: scr_dict_dipole_def Let_def m' lo n' po)
  also have "\<dots> = map ?g (concat (map (\<lambda>s. zip (?e s) (zip (?p s) (zip poso (?r s)))) grp))"
    by (simp only: c1 c2 c4)
  also have "\<dots> = concat (map (\<lambda>s. map ?g (zip (?e s) (zip (?p s) (zip poso (?r s))))) grp)"
    by (simp add: map_concat comp_def)
  also have "\<dots> = concat (map (\<lambda>s. concat (map (\<lambda>j. map (\<lambda>q. level1_row F bh ty (moment (h ! s)) []
        (pos (h ! s) ! j) (rot (h ! s) ! j) (poso ! (j * n + q))) [0..<n]) [0..<m])) grp)"
  proof -
    have "\<And>s. s \<in> set grp \<Longrightarrow>
        map ?g (zip (?e s) (zip (?p s) (zip poso (?r s)))) =
        concat (map (\<lambda>j. map (\<lambda>q. level1_row F bh ty (moment (h ! s)) []
          (pos (h ! s) ! j) (rot (h ! s) ! j) (poso ! (j * n + q))) [0..<n]) [0..<m])"
      using len lo by (intro source_block_dipole) auto
    then show ?thesis by (auto intro!: arg_cong [where f = concat] map_cong)
  qed
  finally show ?thesis .
qed

lemma concat_map_concat: "concat (map concat xss) = concat (concat xss)"
  by (induction xss) simp_all

lemma world_rows_shape: "well_shaped m n (map (world_rows F bh h poso m n) xs)"
  by (auto simp: well_shaped_def world_rows_def)

lemma length_concat_world:
  "length (concat (concat (map (world_rows F bh h poso m n) xs))) = length xs * m * n"
proof -
  have 1: "length (concat (map (world_rows F bh h poso m n) xs)) = length (map (world_rows F bh h poso m n) xs) * m"
    by (rule concat_uniform_length) (auto simp: world_rows_def)
  have "length (concat (concat (map (world_rows F bh h poso m n) xs))) =
        length (concat (map (world_rows F bh h poso m n) xs)) * n"
    by (rule concat_uniform_length) (auto simp: world_rows_def)
  with 1 show ?thesis by simp
qed

lemma level1_group:
  assumes g: "g < 4" and ne: "grp \<noteq> []"
    and cls: "\<And>s. s \<in> set grp \<Longrightarrow> obj_class (h ! s) = [Box, Cylinder, Sphere, Dipole] ! g"
    and len: "\<And>s. s \<in> set grp \<Longrightarrow> length (pos (h ! s)) = m \<and> length (rot (h ! s)) = m"
    and lo: "length poso = m * n" and m: "0 < m"
  shows "getBH_level1 F bh ([Box, Cylinder, Sphere, Dipole] ! g)
           (if g = 3 then scr_dict_dipole h grp poso else scr_dict_homo_mag h grp poso) =
         concat (concat (map (world_rows F bh h poso m n) grp))"
proof (cases "g = 3")
  case True
  have "getBH_level1 F bh Dipole (scr_dict_dipole h grp poso) =
    concat (map (\<lambda>s. concat (map (\<lambda>j. map (\<lambda>q. level1_row F bh Dipole (moment (h ! s)) []
        (pos (h ! s) ! j) (rot (h ! s) ! j) (poso ! (j * n + q))) [0..<n]) [0..<m])) grp)"
    using ne len lo m by (rule level1_dipole)
  also have "\<dots> = concat (map (\<lambda>s. concat (world_rows F bh h poso m n s)) grp)"
    using cls True by (intro arg_cong [where f = concat] map_cong) (simp_all add: world_rows_def src_field_def)
  also have "\<dots> = concat (concat (map (world_rows F bh h poso m n) grp))"
    using concat_map_concat [of "map (world_rows F bh h poso m n) grp"] by (simp add: comp_def)
  finally show ?thesis using True by simp
next
  case False
  with g have "g = 0 \<or> g = 1 \<or> g = 2" by arith
  then have nd: "[Box, Cylinder, Sphere, Dipole] ! g \<noteq> Dipole"
    by auto
  have "getBH_level1 F bh ([Box, Cylinder, Sphere, Dipole] ! g) (scr_dict_homo_mag h grp poso) =
    concat (map (\<lambda>s. concat (map (\<lambda>j. map (\<lambda>q. level1_row F bh ([Box, Cylinder, Sphere, Dipole] ! g)
        (mag (h ! s)) (dim (h ! s))
        (pos (h ! s) ! j) (rot (h ! s) ! j) (poso ! (j * n + q))) [0..<n]) [0..<m])) grp)"
    using ne len lo m by (rule level1_homo_mag)
  also have "\<dots> = concat (map (\<lambda>s. concat (world_rows F bh h poso m n s)) grp)"
    using cls nd by (intro arg_cong [where f = concat] map_cong) (simp_all add: world_rows_def src_field_def)
  also have "\<dots> = concat (concat (map (world_rows F bh h poso m n) grp))"
    using concat_map_concat [of "map (world_rows F bh h poso m n) grp"] by (simp add: comp_def)
  finally show ?thesis using False by simp
qed

lemma eval_group_ok:
  assumes g: "g < 4"
    and ss: "src_sorted ! g = map (\<lambda>i. src_list ! i) (order ! g)"
    and os: "set (order ! g) =
               {i. i < length src_list \<and> obj_class (h ! (src_list ! i)) = [Box, Cylinder, Sphere, Dipole] ! g}"
    and len: "\<And>a. a \<in> set src_list \<Longrightarrow> length (pos (h ! a)) = m \<and> length (rot (h ! a)) = m"
    and lo: "length poso = m * n" and m: "0 < m"
    and lB: "length B = length src_list"
  shows "eval_group F bh h src_sorted order poso m n g B =
     (Inr (map (\<lambda>t. if obj_class (h ! (src_list ! t)) = [Box, Cylinder, Sphere, Dipole] ! g
                     then world_rows F bh h poso m n (src_list ! t) else B ! t) [0..<length src_list]),
      if src_sorted ! g = [] then []
      else [Level1 bh ([Box, Cylinder, Sphere, Dipole] ! g) (length (src_sorted ! g) * m * n)])"
proof (cases "src_sorted ! g = []")
  case True
  with ss have "order ! g = []" by simp
  with os have none: "\<And>t. t < length src_list \<Longrightarrow>
      obj_class (h ! (src_list ! t)) \<noteq> [Box, Cylinder, Sphere, Dipole] ! g"
    by auto
  have "map (\<lambda>t. if obj_class (h ! (src_list ! t)) = [Box, Cylinder, Sphere, Dipole] ! g
                     then world_rows F bh h poso m n (src_list ! t) else B ! t) [0..<length src_list]
        = map ((!) B) [0..<length B]"
    unfolding lB by (rule map_cong) (use none in auto)
  also have "\<dots> = B" by (rule map_nth)
  finally show ?thesis using True by (simp add: eval_group_def)
next
  case False
  let ?grp = "src_sorted ! g"
  let ?ord = "order ! g"
  let ?W = "map (world_rows F bh h poso m n) src_list"
  let ?T = "map (world_rows F bh h poso m n) ?grp"
  have ord_lt: "\<And>i. i < length ?ord \<Longrightarrow> ?ord ! i < length src_list"
    using os nth_mem by blast
  have mem: "s \<in> set src_list \<and> obj_class (h ! s) = [Box, Cylinder, Sphere, Dipole] ! g"
    if "s \<in> set ?grp" for s
  proof -
    from that have "s \<in> (\<lambda>i. src_list ! i) ` set ?ord" by (simp only: ss set_map)
    then obtain i where i: "i \<in> set ?ord" and s: "s = src_list ! i" by blast
    from i os have "i < length src_list \<and> obj_class (h ! (src_list ! i)) = [Box, Cylinder, Sphere, Dipole] ! g"
      by blast
    with s show ?thesis by simp
  qed
  have flat: "getBH_level1 F bh ([Box, Cylinder, Sphere, Dipole] ! g)
           (if g = 3 then scr_dict_dipole h ?grp poso else scr_dict_homo_mag h ?grp poso) =
         concat (concat ?T)"
  proof (rule level1_group [OF g False _ _ lo m])
    fix s assume "s \<in> set ?grp"
    with mem show "obj_class (h ! s) = [Box, Cylinder, Sphere, Dipole] ! g" by blast
  next
    fix s assume "s \<in> set ?grp"
    with mem have "s \<in> set src_list" by blast
    then show "length (pos (h ! s)) = m \<and> length (rot (h ! s)) = m" by (rule len)
  qed
  have resh: "reshape_lmn (length ?grp) m n (concat (concat ?T)) = Inr ?T"
  proof -
    have "well_shaped m n ?T" by (rule world_rows_shape)
    from reshape_lmn_concat [OF this] show ?thesis by simp
  qed
  have lg: "length ?grp = length ?ord" using ss by simp
  have body: "fold (\<lambda>i B. B[?ord ! i := ?T ! i]) [0..<length ?grp] B =
              fold (\<lambda>i B. B[?ord ! i := ?W ! (?ord ! i)]) [0..<length ?grp] B"
  proof (rule fold_cong [OF refl refl])
    fix i
    assume "i \<in> set [0..<length ?grp]"
    then have i: "i < length ?ord" using lg by simp
    then have "?T ! i = ?W ! (?ord ! i)"
      using ord_lt [OF i] by (simp add: ss)
    then show "(\<lambda>B. B[?ord ! i := ?T ! i]) = (\<lambda>B. B[?ord ! i := ?W ! (?ord ! i)])"
      by simp
  qed
  have img: "(\<lambda>i. ?ord ! i) ` set [0..<length ?grp] = set ?ord"
    unfolding lg by (auto simp: in_set_conv_nth)
  have "fold (\<lambda>i B. B[?ord ! i := ?W ! (?ord ! i)]) [0..<length ?grp] B =
        map (\<lambda>t. if t \<in> set ?ord then ?W ! t else B ! t) [0..<length B]"
    using scatter_rows [of B ?W ?ord "[0..<length ?grp]"] lB img by simp
  also have "\<dots> = map (\<lambda>t. if obj_class (h ! (src_list ! t)) = [Box, Cylinder, Sphere, Dipole] ! g
                     then world_rows F bh h poso m n (src_list ! t) else B ! t) [0..<length src_list]"
    unfolding lB by (rule map_cong) (auto simp: os)
  finally have sc: "fold (\<lambda>i B. B[?ord ! i := ?T ! i]) [0..<length ?grp] B =
     map (\<lambda>t. if obj_class (h ! (src_list ! t)) = [Box, Cylinder, Sphere, Dipole] ! g
                     then world_rows F bh h poso m n (src_list ! t) else B ! t) [0..<length src_list]"
    using body by simp
  show ?thesis
    using False by (simp add: eval_group_def Let_def flat resh sc length_concat_world del: fold_simps)
qed

lemma filter_enumerate_members:
  "map snd (filter (\<lambda>x. Q (snd x)) (enumerate k xs)) = filter Q xs"
  by (induction xs arbitrary: k) simp_all

lemma for_loop_4:
  assumes "body a x0 = (Inr x1, e1)" and "body b x1 = (Inr x2, e2)"
    and "body c x2 = (Inr x3, e3)" and "body d x3 = (Inr x4, e4)"
  shows "for_loop body [a, b, c, d] x0 = (Inr x4, e1 @ e2 @ e3 @ e4)"
  using assms by simp

lemma dispatch_ok:
  assumes rec: "\<And>a. a \<in> set src_list \<Longrightarrow> obj_class (h ! a) \<in> {Box, Cylinder, Sphere, Dipole}"
    and len: "\<And>a. a \<in> set src_list \<Longrightarrow> length (pos (h ! a)) = m \<and> length (rot (h ! a)) = m"
    and lo: "length poso = m * n" and m: "0 < m"
    and gs: "group_sources h (enumerate 0 src_list) ([[], [], [], []], [[], [], [], []]) = Inr (src_sorted, order)"
    and lB: "length B0 = length src_list"
  shows "for_loop (eval_group F bh h src_sorted order poso m n) [0, 1, 2, 3] B0 =
         (Inr (map (world_rows F bh h poso m n) src_list), level1_events bh h src_list m n)"
proof -
  let ?en = "enumerate 0 src_list"
  let ?sel = "\<lambda>c. filter (\<lambda>x. obj_class (h ! snd x) = c) ?en"
  let ?fam = "[Box, Cylinder, Sphere, Dipole]"
  let ?W = "world_rows F bh h poso m n"
  have "\<forall>x \<in> set ?en. obj_class (h ! snd x) \<in> {Box, Cylinder, Sphere, Dipole}"
  proof
    fix x assume "x \<in> set ?en"
    then have "snd x = src_list ! fst x" and "fst x < length src_list"
      by (simp_all add: enumerate_snd_nth)
    then have "snd x \<in> set src_list" by simp
    then show "obj_class (h ! snd x) \<in> {Box, Cylinder, Sphere, Dipole}" by (rule rec)
  qed
  from group_sources_ok [OF this, of "[]" "[]" "[]" "[]" "[]" "[]" "[]" "[]"] gs
  have ss: "src_sorted = map (\<lambda>c. map snd (?sel c)) ?fam"
    and oo: "order = map (\<lambda>c. map fst (?sel c)) ?fam"
    by simp_all
  have ssg: "src_sorted ! g = map (\<lambda>i. src_list ! i) (order ! g)" if "g < 4" for g
  proof -
    from that have "g < length ?fam" by simp
    then show ?thesis
      unfolding ss oo by (simp only: nth_map filter_enumerate_snd)
  qed
  have osg: "set (order ! g) = {i. i < length src_list \<and> obj_class (h ! (src_list ! i)) = ?fam ! g}"
    if "g < 4" for g
  proof -
    from that have "g < length ?fam" by simp
    then show ?thesis
      unfolding oo by (simp only: nth_map) (rule filter_enumerate_fst_set)
  qed
  have fm: "src_sorted ! g = family_members h src_list (?fam ! g)" if "g < 4" for g
  proof -
    from that have "g < length ?fam" by simp
    then show ?thesis
      unfolding ss family_members_def by (simp only: nth_map) (rule filter_enumerate_members)
  qed
  have step: "eval_group F bh h src_sorted order poso m n g B =
     (Inr (map (\<lambda>t. if obj_class (h ! (src_list ! t)) = ?fam ! g then ?W (src_list ! t) else B ! t)
             [0..<length src_list]),
      if family_members h src_list (?fam ! g) = [] then []
      else [Level1 bh (?fam ! g) (length (family_members h src_list (?fam ! g)) * m * n)])"
    if "g < 4" and "length B = length src_list" for g B
    using eval_group_ok [OF that(1) ssg [OF that(1)] osg [OF that(1)] len lo m that(2), of F bh]
    by (simp only: fm [OF that(1)])
  let ?B1 = "map (\<lambda>t. if obj_class (h ! (src_list ! t)) = Box then ?W (src_list ! t) else B0 ! t) [0..<length src_list]"
  let ?B2 = "map (\<lambda>t. if obj_class (h ! (src_list ! t)) = Cylinder then ?W (src_list ! t) else ?B1 ! t) [0..<length src_list]"
  let ?B3 = "map (\<lambda>t. if obj_class (h ! (src_list ! t)) = Sphere then ?W (src_list ! t) else ?B2 ! t) [0..<length src_list]"
  let ?B4 = "map (\<lambda>t. if obj_class (h ! (src_list ! t)) = Dipole then ?W (src_list ! t) else ?B3 ! t) [0..<length src_list]"
  have s0: "eval_group F bh h src_sorted order poso m n 0 B0 = (Inr ?B1,
      if family_members h src_list Box = [] then []
      else [Level1 bh Box (length (family_members h src_list Box) * m * n)])"
    using step [of 0 B0] lB by simp
  have s1: "eval_group F bh h src_sorted order poso m n 1 ?B1 = (Inr ?B2,
      if family_members h src_list Cylinder = [] then []
      else [Level1 bh Cylinder (length (family_members h src_list Cylinder) * m * n)])"
    using step [of 1 ?B1] by simp
  have s2: "eval_group F bh h src_sorted order poso m n 2 ?B2 = (Inr ?B3,
      if family_members h src_list Sphere = [] then []
      else [Level1 bh Sphere (length (family_members h src_list Sphere) * m * n)])"
    using step [of 2 ?B2] by simp
  have s3: "eval_group F bh h src_sorted order poso m n 3 ?B3 = (Inr ?B4,
      if family_members h src_list Dipole = [] then []
      else [Level1 bh Dipole (length (family_members h src_list Dipole) * m * n)])"
    using step [of 3 ?B3] by simp
  have B4: "?B4 = map ?W src_list"
  proof (rule nth_equalityI)
    show "length ?B4 = length (map ?W src_list)" by simp
  next
    fix t assume "t < length ?B4"
    then have t: "t < length src_list" by simp
    then have "obj_class (h ! (src_list ! t)) \<in> {Box, Cylinder, Sphere, Dipole}"
      using rec by simp
    with t show "?B4 ! t = map ?W src_list ! t"
      by auto
  qed
  have "for_loop (eval_group F bh h src_sorted order poso m n) [0, 1, 2, 3] B0 =
        (Inr ?B4, level1_events bh h src_list m n)"
    unfolding level1_events_def
    using for_loop_4 [where body = "eval_group F bh h src_sorted order poso m n", OF s0 s1 s2 s3]
    by simp
  with B4 show ?thesis by simp
qed

lemma vadd_vzero [simp]: "vadd vzero x = x"
  by (cases x) (simp add: vzero_def)

lemma map2_vadd_zero: "length r = n \<Longrightarrow> map2 vadd (replicate n vzero) r = r"
  by (rule nth_equalityI) simp_all

lemma sum_axis0_single:
  assumes "length b = m" and "\<And>r. r \<in> set b \<Longrightarrow> length r = n"
  shows "sum_axis0 m n [b] = b"
proof -
  have "map2 (map2 vadd) (replicate m (replicate n vzero)) b = b"
  proof (rule nth_equalityI)
    show "length (map2 (map2 vadd) (replicate m (replicate n vzero)) b) = length b"
      using assms(1) by simp
  next
    fix i assume "i < length (map2 (map2 vadd) (replicate m (replicate n vzero)) b)"
    then have i: "i < m" using assms(1) by simp
    then have "length (b ! i) = n" using assms by simp
    then show "map2 (map2 vadd) (replicate m (replicate n vzero)) b ! i = b ! i"
      using i assms(1) by (simp add: map2_vadd_zero)
  qed
  then show ?thesis by (simp add: sum_axis0_def)
qed

lemma sum_entry_collection:
  assumes "length pre = i" and "srcs \<noteq> []"
  shows "sum_entry m n (i, Collection srcs) (pre @ map W srcs @ rest) =
         (Inr (pre @ [sum_axis0 m n (map W srcs)] @ rest), [SumMembers i (length srcs)])"
proof -
  from assms(2) obtain a srcs' where srcs: "srcs = a # srcs'" by (cases srcs) auto
  let ?X = "sum_axis0 m n (map W srcs)"
  let ?B = "pre @ map W srcs @ rest"
  have td: "take (length srcs) (drop i ?B) = map W srcs"
    using assms(1) by simp
  have upd: "?B[i := ?X] = pre @ (?X # map W srcs' @ rest)"
    using assms(1) by (simp add: srcs list_update_append)
  have "np_delete (pre @ (?X # map W srcs' @ rest)) (i + 1) (i + length srcs) = pre @ [?X] @ rest"
    using assms(1) by (cases srcs') (simp_all add: np_delete_def srcs)
  with td upd show ?thesis using assms by (simp add: Let_def)
qed

lemma sum_loop:
  assumes "\<And>e. e \<in> set es \<Longrightarrow> members e \<noteq> []" and "length pre = i"
  shows "for_loop (sum_entry m n) (enumerate i es) (pre @ map W (concat (map members es))) =
         (Inr (pre @ map (entry_rows W m n) es), concat (map sum_event (enumerate i es)))"
  using assms
proof (induction es arbitrary: i pre)
  case Nil
  then show ?case by simp
next
  case (Cons e es)
  have rest: "\<And>e. e \<in> set es \<Longrightarrow> members e \<noteq> []" using Cons.prems(1) by simp
  show ?case
  proof (cases e)
    case (Obj a)
    have "for_loop (sum_entry m n) (enumerate (Suc i) es) ((pre @ [W a]) @ map W (concat (map members es))) =
         (Inr ((pre @ [W a]) @ map (entry_rows W m n) es), concat (map sum_event (enumerate (Suc i) es)))"
      by (rule Cons.IH [OF rest]) (simp_all add: Cons.prems(2))
    then show ?thesis by (simp add: Obj entry_rows_def)
  next
    case (Collection srcs)
    with Cons.prems(1) have ne: "srcs \<noteq> []" by force
    let ?X = "sum_axis0 m n (map W srcs)"
    have 1: "sum_entry m n (i, Collection srcs) (pre @ map W srcs @ map W (concat (map members es))) =
         (Inr (pre @ [?X] @ map W (concat (map members es))), [SumMembers i (length srcs)])"
      using Cons.prems(2) ne by (rule sum_entry_collection)
    have 2: "for_loop (sum_entry m n) (enumerate (Suc i) es) ((pre @ [?X]) @ map W (concat (map members es))) =
         (Inr ((pre @ [?X]) @ map (entry_rows W m n) es), concat (map sum_event (enumerate (Suc i) es)))"
      by (rule Cons.IH [OF rest]) (simp_all add: Cons.prems(2))
    from 1 2 show ?thesis by (simp add: Collection entry_rows_def)
  qed
qed

lemma members_count:
  assumes "\<And>e. e \<in> set es \<Longrightarrow> members e \<noteq> []"
  shows "length es \<le> length (concat (map members es))"
  using assms
proof (induction es)
  case Nil
  then show ?case by simp
next
  case (Cons e es)
  then have "members e \<noteq> []" and "length es \<le> length (concat (map members es))" by simp_all
  then show ?case by (cases "members e") simp_all
qed

lemma no_sum_needed:
  assumes "\<And>e. e \<in> set es \<Longrightarrow> members e \<noteq> []"
    and "\<not> length (concat (map members es)) > length es"
    and "\<And>a. length (W a) = m" and "\<And>a r. r \<in> set (W a) \<Longrightarrow> length r = n"
  shows "map W (concat (map members es)) = map (entry_rows W m n) es"
  using assms(1,2)
proof (induction es)
  case Nil
  then show ?case by simp
next
  case (Cons e es)
  have rest: "\<And>e. e \<in> set es \<Longrightarrow> members e \<noteq> []" using Cons.prems(1) by simp
  have ge: "length es \<le> length (concat (map members es))" using rest by (rule members_count)
  have ne: "members e \<noteq> []" using Cons.prems(1) by simp
  from Cons.prems(2) have le: "length (members e) + length (concat (map members es)) \<le> Suc (length es)"
    by simp
  from ne have "1 \<le> length (members e)" by (cases "members e") simp_all
  with le ge have one: "length (members e) = 1" and "\<not> length (concat (map members es)) > length es"
    by simp_all
  with Cons.IH [OF rest] have IH: "map W (concat (map members es)) = map (entry_rows W m n) es"
    by simp
  from one obtain a where a: "members e = [a]"
    by (cases "members e") simp_all
  have "entry_rows W m n e = W a"
  proof (cases e)
    case (Obj b)
    with a show ?thesis by (simp add: entry_rows_def)
  next
    case (Collection srcs)
    with a have "srcs = [a]" by simp
    with Collection show ?thesis
      using sum_axis0_single [of "W a" m n] assms(3,4) by (simp add: entry_rows_def)
  qed
  with a IH show ?case by simp
qed

lemma apply_inv_unitQ [simp]: "apply_q (inv_q unitQ) v = v"
  by (cases v) (simp add: unitQ_def)

lemma rot_part_unitQ: "lo \<le> hi \<Longrightarrow> rot_part unitQ lo hi xs = xs"
proof -
  assume "lo \<le> hi"
  have "take lo xs @ take (hi - lo) (drop lo xs) @ drop hi xs = xs"
  proof -
    have "take (hi - lo) (drop lo xs) @ drop (hi - lo) (drop lo xs) = drop lo xs"
      by (rule append_take_drop_id)
    moreover have "drop (hi - lo) (drop lo xs) = drop hi xs"
      using \<open>lo \<le> hi\<close> by simp
    ultimately have "take lo xs @ take (hi - lo) (drop lo xs) @ drop hi xs = take lo xs @ drop lo xs"
      by simp
    then show ?thesis by simp
  qed
  moreover have "map (apply_q (inv_q unitQ)) ys = ys" for ys
    by (induction ys) simp_all
  ultimately show ?thesis by (simp add: rot_part_def part_def)
qed

lemma part_length: "hi \<le> length xs \<Longrightarrow> length (part lo hi xs) = hi - lo"
  by (simp add: part_def)

lemma rot_part_length: "lo \<le> hi \<Longrightarrow> length (rot_part q lo hi xs) = length xs"
  by (simp add: rot_part_def part_def)

lemma tensor_count:
  assumes "well_shaped m n T"
  shows "length (concat (concat T)) = length T * m * n"
proof -
  have 1: "length (concat T) = length T * m"
    by (rule concat_uniform_length) (use assms in \<open>auto simp: well_shaped_def\<close>)
  have "length (concat (concat T)) = length (concat T) * n"
    by (rule concat_uniform_length) (use assms in \<open>auto simp: well_shaped_def\<close>)
  with 1 show ?thesis by simp
qed

lemma for_loop_append:
  "for_loop body (xs @ ys) x = then_do (for_loop body xs x) (for_loop body ys)"
proof (induction xs arbitrary: x)
  case Nil
  then show ?case by simp
next
  case (Cons i xs)
  show ?case
  proof (cases "body i x")
    case (Pair r evs)
    then show ?thesis
      by (cases r) (simp_all add: Cons.IH then_do_def split: prod.splits sum.splits)
  qed
qed

lemma rot_steps:
  assumes shp: "well_shaped m n B" and lB: "length B = l0"
    and hi: "(i + 1) * k_pixel \<le> n" and t: "t \<le> m"
  shows "for_loop (rot_step h sens i k_pixel l0) [0..<t] B =
     (Inr (map (\<lambda>b. map (\<lambda>j. if j < t
                                then rot_part (rot (h ! sens) ! j) (i * k_pixel) ((i + 1) * k_pixel) (b ! j)
                                else b ! j) [0..<m]) B),
      map (\<lambda>j. RotBack i (rot (h ! sens) ! j) (k_pixel * l0)) [0..<t])"
  using t
proof (induction t)
  case 0
  have "map (\<lambda>b. map (\<lambda>j. b ! j) [0..<m]) B = map (\<lambda>b. b) B"
  proof (rule map_cong [OF refl])
    fix b assume "b \<in> set B"
    with shp have "length b = m" by (simp add: well_shaped_def)
    then show "map (\<lambda>j. b ! j) [0..<m] = b" using map_nth [of b] by simp
  qed
  then show ?case by simp
next
  case (Suc t)
  let ?lo = "i * k_pixel" and ?hi = "(i + 1) * k_pixel"
  let ?q = "\<lambda>j. rot (h ! sens) ! j"
  let ?Bt = "map (\<lambda>b. map (\<lambda>j. if j < t then rot_part (?q j) ?lo ?hi (b ! j) else b ! j) [0..<m]) B"
  from Suc.prems have t: "t < m" by simp
  have IH: "for_loop (rot_step h sens i k_pixel l0) [0..<t] B =
     (Inr ?Bt, map (\<lambda>j. RotBack i (?q j) (k_pixel * l0)) [0..<t])"
    using Suc by simp
  have parts: "map (\<lambda>b. part ?lo ?hi (b ! t)) ?Bt = map (\<lambda>b. part ?lo ?hi (b ! t)) B"
    using t by (simp add: comp_def)
  have cnt: "length (concat (map (\<lambda>b. part ?lo ?hi (b ! t)) B)) = k_pixel * l0"
  proof -
    have "length (concat (map (\<lambda>b. part ?lo ?hi (b ! t)) B)) =
          length (map (\<lambda>b. part ?lo ?hi (b ! t)) B) * k_pixel"
    proof (rule concat_uniform_length)
      fix x assume "x \<in> set (map (\<lambda>b. part ?lo ?hi (b ! t)) B)"
      then obtain b where b: "b \<in> set B" and x: "x = part ?lo ?hi (b ! t)" by auto
      from b shp t have "length (b ! t) = n" by (simp add: well_shaped_def)
      with hi have "length (part ?lo ?hi (b ! t)) = ?hi - ?lo" by (simp add: part_length)
      with x show "length x = k_pixel" by simp
    qed
    with lB show ?thesis by simp
  qed
  have upd: "map (\<lambda>b. b[t := rot_part (?q t) ?lo ?hi (b ! t)]) ?Bt =
             map (\<lambda>b. map (\<lambda>j. if j < Suc t then rot_part (?q j) ?lo ?hi (b ! j) else b ! j) [0..<m]) B"
  proof -
    have "(map (\<lambda>j. if j < t then rot_part (?q j) ?lo ?hi (b ! j) else b ! j) [0..<m])
            [t := rot_part (?q t) ?lo ?hi (b ! t)] =
          map (\<lambda>j. if j < Suc t then rot_part (?q j) ?lo ?hi (b ! j) else b ! j) [0..<m]" for b
      by (rule nth_equalityI) (auto simp: nth_list_update less_Suc_eq)
    then show ?thesis using t by (simp add: comp_def)
  qed
  have step: "rot_step h sens i k_pixel l0 t ?Bt =
     (Inr (map (\<lambda>b. map (\<lambda>j. if j < Suc t then rot_part (?q j) ?lo ?hi (b ! j) else b ! j) [0..<m]) B),
      [RotBack i (?q t) (k_pixel * l0)])"
    unfolding rot_step_def Let_def parts cnt upd by simp
  have "for_loop (rot_step h sens i k_pixel l0) [0..<Suc t] B =
        then_do (for_loop (rot_step h sens i k_pixel l0) [0..<t] B)
          (for_loop (rot_step h sens i k_pixel l0) [t])"
    by (simp add: for_loop_append)
  with IH step show ?case by simp
qed

lemma rot_sensor_ok:
  assumes shp: "well_shaped m n B" and lB: "length B = l0"
    and hi: "(i + 1) * k_pixel \<le> n"
    and un: "unrotated ! i \<Longrightarrow> \<forall>j<m. rot (h ! sens) ! j = unitQ"
    and st: "static ! i \<Longrightarrow> \<forall>j<m. rot (h ! sens) ! j = rot (h ! sens) ! 0"
  shows "rot_sensor h unrotated static k_pixel l0 m (i, sens) B =
           (Inr (rotate_every_step h sens i k_pixel B),
            rot_events h unrotated static k_pixel l0 m (i, sens))"
proof -
  let ?lo = "i * k_pixel" and ?hi = "(i + 1) * k_pixel"
  let ?q = "\<lambda>j. rot (h ! sens) ! j"
  have lohi: "?lo \<le> ?hi" by simp
  have lb: "length b = m" if "b \<in> set B" for b
    using that shp by (simp add: well_shaped_def)
  have every: "rotate_every_step h sens i k_pixel B =
      map (\<lambda>b. map (\<lambda>j. rot_part (?q j) ?lo ?hi (b ! j)) [0..<m]) B"
    unfolding rotate_every_step_def by (rule map_cong [OF refl]) (simp add: lb)
  show ?thesis
  proof (cases "unrotated ! i")
    case True
    have "map (\<lambda>b. map (\<lambda>j. rot_part (?q j) ?lo ?hi (b ! j)) [0..<m]) B = map (\<lambda>b. b) B"
    proof (rule map_cong [OF refl])
      fix b assume b: "b \<in> set B"
      have "map (\<lambda>j. rot_part (?q j) ?lo ?hi (b ! j)) [0..<m] = map (\<lambda>j. b ! j) [0..<m]"
      proof (rule map_cong [OF refl])
        fix j assume "j \<in> set [0..<m]"
        then have "j < m" by simp
        with un [OF True] have "?q j = unitQ" by blast
        with lohi show "rot_part (?q j) ?lo ?hi (b ! j) = b ! j" by (simp add: rot_part_unitQ)
      qed
      also have "\<dots> = b" using map_nth [of b] lb [OF b] by simp
      finally show "map (\<lambda>j. rot_part (?q j) ?lo ?hi (b ! j)) [0..<m] = b" .
    qed
    with every True show ?thesis by (simp add: rot_sensor_def)
  next
    case False
    show ?thesis
    proof (cases "static ! i")
      case True
      have ws: "well_shaped m k_pixel (map (map (part ?lo ?hi)) B)"
        unfolding well_shaped_def
      proof
        fix b' assume "b' \<in> set (map (map (part ?lo ?hi)) B)"
        then obtain b where b: "b \<in> set B" and b': "b' = map (part ?lo ?hi) b" by auto
        have "length r' = k_pixel" if "r' \<in> set b'" for r'
        proof -
          from that b' obtain r where r: "r \<in> set b" and r': "r' = part ?lo ?hi r" by auto
          from r b shp have "length r = n" by (auto simp: well_shaped_def)
          with hi r' show ?thesis by (simp add: part_length)
        qed
        with b' lb [OF b] show "length b' = m \<and> (\<forall>r \<in> set b'. length r = k_pixel)" by simp
      qed
      have cnt: "length (concat (concat (map (map (part ?lo ?hi)) B))) = k_pixel * l0 * m"
        using tensor_count [OF ws] lB by (simp add: mult.commute mult.left_commute)
      have "map (map (rot_part (?q 0) ?lo ?hi)) B =
            map (\<lambda>b. map (\<lambda>j. rot_part (?q j) ?lo ?hi (b ! j)) [0..<m]) B"
      proof (rule map_cong [OF refl])
        fix b assume b: "b \<in> set B"
        have "map (rot_part (?q 0) ?lo ?hi) b = map (\<lambda>j. rot_part (?q 0) ?lo ?hi (b ! j)) [0..<length b]"
          by (rule map_nth_upt [symmetric])
        also have "\<dots> = map (\<lambda>j. rot_part (?q j) ?lo ?hi (b ! j)) [0..<m]"
          unfolding lb [OF b]
        proof (rule map_cong [OF refl])
          fix j assume "j \<in> set [0..<m]"
          then have "j < m" by simp
          with st [OF True] have "?q j = ?q 0" by blast
          then show "rot_part (?q 0) ?lo ?hi (b ! j) = rot_part (?q j) ?lo ?hi (b ! j)" by simp
        qed
        finally show "map (rot_part (?q 0) ?lo ?hi) b = map (\<lambda>j. rot_part (?q j) ?lo ?hi (b ! j)) [0..<m]" .
      qed
      with every have res: "map (map (rot_part (?q 0) ?lo ?hi)) B = rotate_every_step h sens i k_pixel B"
        by simp
      show ?thesis
        using False True
        by (simp only: rot_sensor_def Let_def prod.case rot_events.simps cnt res
              not_False_eq_True not_True_eq_False if_True if_False simp_thms)
    next
      case nst: False
      have "for_loop (rot_step h sens i k_pixel l0) [0..<m] B =
        (Inr (map (\<lambda>b. map (\<lambda>j. if j < m then rot_part (?q j) ?lo ?hi (b ! j) else b ! j) [0..<m]) B),
         map (\<lambda>j. RotBack i (?q j) (k_pixel * l0)) [0..<m])"
        using shp lB hi by (rule rot_steps) simp
      moreover have "map (\<lambda>b. map (\<lambda>j. if j < m then rot_part (?q j) ?lo ?hi (b ! j) else b ! j) [0..<m]) B =
          map (\<lambda>b. map (\<lambda>j. rot_part (?q j) ?lo ?hi (b ! j)) [0..<m]) B"
        by (intro map_cong refl) simp
      ultimately show ?thesis
        using False nst every by (simp add: rot_sensor_def)
    qed
  qed
qed

lemma rotate_every_step_shape:
  assumes "well_shaped m n B"
  shows "well_shaped m n (rotate_every_step h sens i k_pixel B)"
    and "length (rotate_every_step h sens i k_pixel B) = length B"
proof -
  have "i * k_pixel \<le> (i + 1) * k_pixel" by simp
  then show "well_shaped m n (rotate_every_step h sens i k_pixel B)"
    using assms by (auto simp: well_shaped_def rotate_every_step_def rot_part_length)
  show "length (rotate_every_step h sens i k_pixel B) = length B"
    by (simp add: rotate_every_step_def)
qed

lemma rot_part_nth:
  assumes "lo \<le> hi" and "hi \<le> length xs" and "p < length xs"
  shows "rot_part q lo hi xs ! p =
           (if lo \<le> p \<and> p < hi then apply_q (inv_q q) (xs ! p) else xs ! p)"
proof -
  consider "p < lo" | "lo \<le> p" "p < hi" | "hi \<le> p" by linarith
  then show ?thesis
  proof cases
    case 1
    with assms show ?thesis by (simp add: rot_part_def part_def nth_append)
  next
    case 2
    with assms have "p - lo < hi - lo" by simp
    with 2 assms show ?thesis by (simp add: rot_part_def part_def nth_append)
  next
    case 3
    let ?A = "take lo xs" and ?M = "map (apply_q (inv_q q)) (take (hi - lo) (drop lo xs))"
    have lA: "length ?A = lo" and lM: "length ?M = hi - lo" using assms by simp_all
    have "(?A @ ?M @ drop hi xs) ! p = (?M @ drop hi xs) ! (p - lo)"
      using 3 assms lA by (simp add: nth_append del: length_take)
    also have "\<dots> = drop hi xs ! (p - lo - (hi - lo))"
    proof -
      have "\<not> p - lo < length ?M" unfolding lM using 3 assms by arith
      then show ?thesis by (simp only: nth_append if_False lM)
    qed
    also have "p - lo - (hi - lo) = p - hi" using 3 assms by simp
    also have "drop hi xs ! (p - hi) = xs ! p" using 3 assms by simp
    finally show ?thesis using 3 by (simp add: rot_part_def part_def)
  qed
qed

lemma block_index:
  assumes "p < k * (c::nat)"
  shows "(t * c \<le> p \<and> p < (t + 1) * c) \<longleftrightarrow> p div c = t"
proof -
  from assms have c: "0 < c" by (cases c) simp_all
  show ?thesis
  proof
    assume "t * c \<le> p \<and> p < (t + 1) * c"
    then have "c * t \<le> p" and "p < c * Suc t" by (simp_all add: mult.commute)
    then show "p div c = t" by (rule div_nat_eqI)
  next
    assume t: "p div c = t"
    have "p = p div c * c + p mod c" by simp
    moreover have "p mod c < c" using c by simp
    ultimately show "t * c \<le> p \<and> p < (t + 1) * c" using t
      by (metis add.commute add_mult_distrib le_add1 mult.commute nat_add_left_cancel_less
          nat_mult_1 One_nat_def)
  qed
qed

lemma rot_part_product:
  assumes t: "t < k"
  shows "rot_part q (t * c) ((t + 1) * c) (map f (List.product [0..<k] [0..<c])) =
         map (\<lambda>x. if fst x = t then apply_q (inv_q q) (f x) else f x) (List.product [0..<k] [0..<c])"
    (is "?L = ?R")
proof (rule nth_equalityI)
  let ?P = "List.product [0..<k] [0..<c]"
  have lP: "length ?P = k * c" by simp
  have hi: "(t + 1) * c \<le> k * c"
    using t by (intro mult_le_mono1) simp
  have lo: "t * c \<le> (t + 1) * c" by simp
  show "length ?L = length ?R"
    using lo by (simp add: rot_part_length)
  fix p assume "p < length ?L"
  then have p: "p < k * c" using lo by (simp add: rot_part_length)
  then have c: "0 < c" by (cases c) simp_all
  have Pp: "?P ! p = (p div c, p mod c)"
  proof -
    have "?P ! p = ([0..<k] ! (p div length [0..<c]), [0..<c] ! (p mod length [0..<c]))"
      by (rule product_nth) (use p in simp)
    moreover have "p div c < k" using p by (simp add: less_mult_imp_div_less)
    ultimately show ?thesis using c by simp
  qed
  have "?L ! p = (if t * c \<le> p \<and> p < (t + 1) * c then apply_q (inv_q q) (map f ?P ! p) else map f ?P ! p)"
    by (rule rot_part_nth) (use lo hi p in simp_all)
  also have "\<dots> = (if p div c = t then apply_q (inv_q q) (f (?P ! p)) else f (?P ! p))"
    using block_index [OF p, of t] p by simp
  also have "\<dots> = ?R ! p"
    using p Pp by simp
  finally show "?L ! p = ?R ! p" .
qed

lemma product_upt_nth:
  assumes "p < k * c"
  shows "List.product [0..<k] [0..<c] ! p = (p div c, p mod c)"
proof -
  from assms have c: "0 < c" by (cases c) simp_all
  have "List.product [0..<k] [0..<c] ! p = ([0..<k] ! (p div length [0..<c]), [0..<c] ! (p mod length [0..<c]))"
    by (rule product_nth) (use assms in simp)
  moreover have "p div c < k" using assms by (simp add: less_mult_imp_div_less)
  ultimately show ?thesis using c by simp
qed

lemma row_product:
  assumes "length xs = k * c"
  shows "map (\<lambda>x. xs ! (fst x * c + snd x)) (List.product [0..<k] [0..<c]) = xs"
proof (rule nth_equalityI)
  show "length (map (\<lambda>x. xs ! (fst x * c + snd x)) (List.product [0..<k] [0..<c])) = length xs"
    using assms by simp
next
  fix p assume "p < length (map (\<lambda>x. xs ! (fst x * c + snd x)) (List.product [0..<k] [0..<c]))"
  then have p: "p < k * c" by simp
  then show "map (\<lambda>x. xs ! (fst x * c + snd x)) (List.product [0..<k] [0..<c]) ! p = xs ! p"
    by (simp add: product_upt_nth)
qed

lemma rotated_upto_0:
  assumes "length b = m" and "\<And>r. r \<in> set b \<Longrightarrow> length r = length sensors * k_pixel"
  shows "rotated_upto h sensors k_pixel m 0 b = b"
proof -
  have "rotated_upto h sensors k_pixel m 0 b = map (\<lambda>j. b ! j) [0..<m]"
    unfolding rotated_upto_def
  proof (rule map_cong [OF refl])
    fix j assume "j \<in> set [0..<m]"
    with assms have "length (b ! j) = length sensors * k_pixel" by simp
    then show "map (\<lambda>x. if fst x < 0
                         then apply_q (inv_q (rot (h ! (sensors ! fst x)) ! j)) (b ! j ! (fst x * k_pixel + snd x))
                         else b ! j ! (fst x * k_pixel + snd x))
                (List.product [0..<length sensors] [0..<k_pixel]) = b ! j"
      using row_product [of "b ! j" "length sensors" k_pixel] by simp
  qed
  also have "\<dots> = b" using map_nth [of b] assms(1) by simp
  finally show ?thesis .
qed

lemma rotated_upto_shape:
  "well_shaped m (length sensors * k_pixel) (map (rotated_upto h sensors k_pixel m t) B)"
  by (auto simp: well_shaped_def rotated_upto_def)

lemma rotated_upto_Suc:
  assumes t: "t < length sensors"
  shows "rotate_every_step h (sensors ! t) t k_pixel (map (rotated_upto h sensors k_pixel m t) B) =
         map (rotated_upto h sensors k_pixel m (Suc t)) B"
proof -
  let ?P = "List.product [0..<length sensors] [0..<k_pixel]"
  let ?F = "\<lambda>t b j x. if fst x < t
                         then apply_q (inv_q (rot (h ! (sensors ! fst x)) ! j)) (b ! j ! (fst x * k_pixel + snd x))
                         else b ! j ! (fst x * k_pixel + snd x)"
  have row: "rot_part (rot (h ! (sensors ! t)) ! j) (t * k_pixel) ((t + 1) * k_pixel)
               (rotated_upto h sensors k_pixel m t b ! j) = map (?F (Suc t) b j) ?P"
    if "j < m" for b j
  proof -
    have "rotated_upto h sensors k_pixel m t b ! j = map (?F t b j) ?P"
      using that by (simp add: rotated_upto_def)
    then have "rot_part (rot (h ! (sensors ! t)) ! j) (t * k_pixel) ((t + 1) * k_pixel)
               (rotated_upto h sensors k_pixel m t b ! j) =
          map (\<lambda>x. if fst x = t then apply_q (inv_q (rot (h ! (sensors ! t)) ! j)) (?F t b j x)
                    else ?F t b j x) ?P"
      using rot_part_product [OF t, of "rot (h ! (sensors ! t)) ! j" k_pixel "?F t b j"] by simp
    also have "\<dots> = map (?F (Suc t) b j) ?P"
      by (rule map_cong [OF refl]) (auto simp: less_Suc_eq)
    finally show ?thesis .
  qed
  have "map (\<lambda>j. rot_part (rot (h ! (sensors ! t)) ! j) (t * k_pixel) ((t + 1) * k_pixel)
               (rotated_upto h sensors k_pixel m t b ! j)) [0..<length (rotated_upto h sensors k_pixel m t b)] =
        rotated_upto h sensors k_pixel m (Suc t) b" for b
  proof -
    have l: "length (rotated_upto h sensors k_pixel m t b) = m" by (simp add: rotated_upto_def)
    have "map (\<lambda>j. rot_part (rot (h ! (sensors ! t)) ! j) (t * k_pixel) ((t + 1) * k_pixel)
               (rotated_upto h sensors k_pixel m t b ! j)) [0..<m] =
          map (\<lambda>j. map (?F (Suc t) b j) ?P) [0..<m]"
    proof (rule map_cong [OF refl])
      fix j assume "j \<in> set [0..<m]"
      then have "j < m" by simp
      then show "rot_part (rot (h ! (sensors ! t)) ! j) (t * k_pixel) ((t + 1) * k_pixel)
               (rotated_upto h sensors k_pixel m t b ! j) = map (?F (Suc t) b j) ?P"
        by (rule row)
    qed
    then show ?thesis unfolding l rotated_upto_def [of h sensors k_pixel m "Suc t" b] .
  qed
  then show ?thesis
    unfolding rotate_every_step_def by (simp only: map_map comp_def)
qed

lemma enumerate_take_Suc:
  assumes "t < length xs"
  shows "enumerate 0 (take (Suc t) xs) = enumerate 0 (take t xs) @ [(t, xs ! t)]"
proof -
  have "take (Suc t) xs = take t xs @ [xs ! t]"
    using assms by (rule take_Suc_conv_app_nth)
  then show ?thesis using assms by (simp add: enumerate_append_eq)
qed

lemma rot_all_upto:
  assumes shp: "well_shaped m (length sensors * k_pixel) B" and lB: "length B = l0"
    and un: "\<And>i. i < length sensors \<Longrightarrow> unrotated ! i \<Longrightarrow> \<forall>j<m. rot (h ! (sensors ! i)) ! j = unitQ"
    and st: "\<And>i. i < length sensors \<Longrightarrow> static ! i \<Longrightarrow>
               \<forall>j<m. rot (h ! (sensors ! i)) ! j = rot (h ! (sensors ! i)) ! 0"
    and t: "t \<le> length sensors"
  shows "for_loop (rot_sensor h unrotated static k_pixel l0 m) (enumerate 0 (take t sensors)) B =
           (Inr (map (rotated_upto h sensors k_pixel m t) B),
            concat (map (rot_events h unrotated static k_pixel l0 m) (enumerate 0 (take t sensors))))"
  using t
proof (induction t)
  case 0
  have "map (rotated_upto h sensors k_pixel m 0) B = map (\<lambda>b. b) B"
    by (rule map_cong [OF refl], rule rotated_upto_0) (use shp in \<open>auto simp: well_shaped_def\<close>)
  then show ?case by simp
next
  case (Suc t)
  then have t: "t < length sensors" by simp
  let ?Bt = "map (rotated_upto h sensors k_pixel m t) B"
  have IH: "for_loop (rot_sensor h unrotated static k_pixel l0 m) (enumerate 0 (take t sensors)) B =
           (Inr ?Bt, concat (map (rot_events h unrotated static k_pixel l0 m) (enumerate 0 (take t sensors))))"
    using Suc by simp
  have hi: "(t + 1) * k_pixel \<le> length sensors * k_pixel"
    using t by (intro mult_le_mono1) simp
  have step: "rot_sensor h unrotated static k_pixel l0 m (t, sensors ! t) ?Bt =
           (Inr (rotate_every_step h (sensors ! t) t k_pixel ?Bt),
            rot_events h unrotated static k_pixel l0 m (t, sensors ! t))"
  proof (rule rot_sensor_ok [OF rotated_upto_shape _ hi])
    show "length ?Bt = l0" using lB by simp
    show "unrotated ! t \<Longrightarrow> \<forall>j<m. rot (h ! (sensors ! t)) ! j = unitQ" using un [OF t] .
    show "static ! t \<Longrightarrow> \<forall>j<m. rot (h ! (sensors ! t)) ! j = rot (h ! (sensors ! t)) ! 0"
      using st [OF t] .
  qed
  have "for_loop (rot_sensor h unrotated static k_pixel l0 m) (enumerate 0 (take (Suc t) sensors)) B =
        then_do (for_loop (rot_sensor h unrotated static k_pixel l0 m) (enumerate 0 (take t sensors)) B)
          (for_loop (rot_sensor h unrotated static k_pixel l0 m) [(t, sensors ! t)])"
    by (simp only: enumerate_take_Suc [OF t] for_loop_append)
  also have "\<dots> = (Inr (rotate_every_step h (sensors ! t) t k_pixel ?Bt),
      concat (map (rot_events h unrotated static k_pixel l0 m) (enumerate 0 (take t sensors)))
      @ rot_events h unrotated static k_pixel l0 m (t, sensors ! t))"
    unfolding IH by (simp add: step del: rot_events.simps)
  finally show ?case
    by (simp only: rotated_upto_Suc [OF t] enumerate_take_Suc [OF t] map_append concat_append
          list.map concat.simps append_Nil2)
qed

lemma path_at_nth: "j < length xs \<Longrightarrow> path_at xs j = xs ! j"
  by (auto simp: path_at_def)

subsection \<open>Sums along the first axis\<close>

lemma fold_add_nth:
  assumes "\<And>w. w \<in> set Ws \<Longrightarrow> length w = m \<and> (\<forall>r \<in> set w. length r = n)"
    and "length A = m" and "\<And>r. r \<in> set A \<Longrightarrow> length r = n"
    and "j < m" and "p < n"
  shows "fold (\<lambda>b acc. map2 (map2 vadd) acc b) Ws A ! j ! p =
         fold (\<lambda>x acc. vadd acc x) (map (\<lambda>w. w ! j ! p) Ws) (A ! j ! p)"
  using assms(1-3)
proof (induction Ws arbitrary: A)
  case Nil
  then show ?case by simp
next
  case (Cons w Ws)
  let ?A' = "map2 (map2 vadd) A w"
  from Cons.prems have lw: "length w = m" and rw: "\<And>r. r \<in> set w \<Longrightarrow> length r = n" by auto
  have lA': "length ?A' = m" using lw Cons.prems(2) by simp
  have rA': "length r = n" if "r \<in> set ?A'" for r
  proof -
    from that obtain x y where "(x, y) \<in> set (zip A w)" and r: "r = map2 vadd x y" by auto
    then have "x \<in> set A" and "y \<in> set w" by (auto dest: set_zip_leftD set_zip_rightD)
    with Cons.prems(3) rw r show ?thesis by simp
  qed
  have Aj: "length (A ! j) = n" using Cons.prems(2,3) assms(4) by simp
  have wj: "length (w ! j) = n" using lw rw assms(4) by simp
  have "?A' ! j ! p = vadd (A ! j ! p) (w ! j ! p)"
    using assms(4,5) lw Cons.prems(2) Aj wj by simp
  moreover have "fold (\<lambda>b acc. map2 (map2 vadd) acc b) Ws ?A' ! j ! p =
         fold (\<lambda>x acc. vadd acc x) (map (\<lambda>w. w ! j ! p) Ws) (?A' ! j ! p)"
    by (rule Cons.IH) (use Cons.prems(1) lA' rA' in auto)
  ultimately show ?case by simp
qed

lemma fold_add_shape:
  assumes "\<And>w. w \<in> set Ws \<Longrightarrow> length w = m \<and> (\<forall>r \<in> set w. length r = n)"
    and "length A = m" and "\<And>r. r \<in> set A \<Longrightarrow> length r = n"
  shows "length (fold (\<lambda>b acc. map2 (map2 vadd) acc b) Ws A) = m
       \<and> (\<forall>r \<in> set (fold (\<lambda>b acc. map2 (map2 vadd) acc b) Ws A). length r = n)"
  using assms
proof (induction Ws arbitrary: A)
  case Nil
  then show ?case by simp
next
  case (Cons w Ws)
  let ?A' = "map2 (map2 vadd) A w"
  from Cons.prems have lw: "length w = m" and rw: "\<And>r. r \<in> set w \<Longrightarrow> length r = n" by auto
  have lA': "length ?A' = m" using lw Cons.prems(2) by simp
  have rA': "length r = n" if "r \<in> set ?A'" for r
  proof -
    from that obtain x y where "(x, y) \<in> set (zip A w)" and r: "r = map2 vadd x y" by auto
    then have "x \<in> set A" and "y \<in> set w" by (auto dest: set_zip_leftD set_zip_rightD)
    with Cons.prems(3) rw r show ?thesis by simp
  qed
  have "length (fold (\<lambda>b acc. map2 (map2 vadd) acc b) Ws ?A') = m
       \<and> (\<forall>r \<in> set (fold (\<lambda>b acc. map2 (map2 vadd) acc b) Ws ?A'). length r = n)"
    by (rule Cons.IH) (use Cons.prems(1) lA' rA' in auto)
  then show ?case by simp
qed

lemma sum_axis0_nth:
  assumes "\<And>w. w \<in> set Ws \<Longrightarrow> length w = m \<and> (\<forall>r \<in> set w. length r = n)"
    and "j < m" and "p < n"
  shows "sum_axis0 m n Ws ! j ! p = vsum (map (\<lambda>w. w ! j ! p) Ws)"
proof -
  have "fold (\<lambda>b acc. map2 (map2 vadd) acc b) Ws (replicate m (replicate n vzero)) ! j ! p =
        fold (\<lambda>x acc. vadd acc x) (map (\<lambda>w. w ! j ! p) Ws) (replicate m (replicate n vzero) ! j ! p)"
    by (rule fold_add_nth [OF assms(1)]) (use assms(2,3) in auto)
  then show ?thesis using assms(2,3) by (simp add: sum_axis0_def vsum_def)
qed

lemma sum_axis0_shape:
  assumes "\<And>w. w \<in> set Ws \<Longrightarrow> length w = m \<and> (\<forall>r \<in> set w. length r = n)"
  shows "length (sum_axis0 m n Ws) = m" and "\<And>r. r \<in> set (sum_axis0 m n Ws) \<Longrightarrow> length r = n"
proof -
  have "length (fold (\<lambda>b acc. map2 (map2 vadd) acc b) Ws (replicate m (replicate n vzero))) = m
       \<and> (\<forall>r \<in> set (fold (\<lambda>b acc. map2 (map2 vadd) acc b) Ws (replicate m (replicate n vzero))). length r = n)"
    by (rule fold_add_shape [OF assms]) auto
  then show "length (sum_axis0 m n Ws) = m" and "\<And>r. r \<in> set (sum_axis0 m n Ws) \<Longrightarrow> length r = n"
    by (simp_all add: sum_axis0_def)
qed

subsection \<open>Observer positions\<close>

lemma sensor_points_nth:
  assumes "length (pos sens) = m" and "length (rot sens) = m" and "j < m"
    and "q < length (rows (pos_pix sens))"
  shows "length (sensor_points sens ! j) = length (rows (pos_pix sens))"
    and "sensor_points sens ! j ! q = obs_point sens j q"
  using assms by (simp_all add: sensor_points_def obs_point_def path_at_nth)

lemma sensor_points_length:
  assumes "length (pos sens) = m" and "length (rot sens) = m" and "j < m"
  shows "length (sensor_points sens ! j) = length (rows (pos_pix sens))"
  using assms by (simp add: sensor_points_def)

lemma observer_positions_length:
  assumes "\<And>s. s \<in> set sensors \<Longrightarrow> length (pos (h ! s)) = m \<and> length (rot (h ! s)) = m
              \<and> length (rows (pos_pix (h ! s))) = k_pixel"
  shows "length (observer_positions h sensors m) = m * (length sensors * k_pixel)"
proof -
  have inner: "length (concat (map (\<lambda>sens. sensor_points (h ! sens) ! j) sensors)) = length sensors * k_pixel"
    if "j < m" for j
  proof -
    have "length (concat (map (\<lambda>sens. sensor_points (h ! sens) ! j) sensors)) =
          length (map (\<lambda>sens. sensor_points (h ! sens) ! j) sensors) * k_pixel"
    proof (rule concat_uniform_length)
      fix x assume "x \<in> set (map (\<lambda>sens. sensor_points (h ! sens) ! j) sensors)"
      then obtain s where s: "s \<in> set sensors" and x: "x = sensor_points (h ! s) ! j" by auto
      from assms(1) [OF s] that have "length (sensor_points (h ! s) ! j) = length (rows (pos_pix (h ! s)))"
        by (intro sensor_points_length) auto
      with assms(1) [OF s] x show "length x = k_pixel" by simp
    qed
    then show ?thesis by simp
  qed
  have "length (observer_positions h sensors m) =
        length (map (\<lambda>j. concat (map (\<lambda>sens. sensor_points (h ! sens) ! j) sensors)) [0..<m])
          * (length sensors * k_pixel)"
    unfolding observer_positions_def by (rule concat_uniform_length) (auto simp: inner)
  then show ?thesis by simp
qed

lemma observer_positions_nth:
  assumes "\<And>s. s \<in> set sensors \<Longrightarrow> length (pos (h ! s)) = m \<and> length (rot (h ! s)) = m
              \<and> length (rows (pos_pix (h ! s))) = k_pixel"
    and "j < m" and "i < length sensors" and "q < k_pixel"
  shows "observer_positions h sensors m ! (j * (length sensors * k_pixel) + (i * k_pixel + q)) =
         obs_point (h ! (sensors ! i)) j q"
proof -
  let ?n = "length sensors * k_pixel"
  let ?blk = "\<lambda>j. concat (map (\<lambda>sens. sensor_points (h ! sens) ! j) sensors)"
  have pts: "length (sensor_points (h ! s) ! j) = k_pixel" if "s \<in> set sensors" and "j < m" for s j
  proof -
    from assms(1) [OF that(1)] that(2)
    have "length (sensor_points (h ! s) ! j) = length (rows (pos_pix (h ! s)))"
      by (intro sensor_points_length) auto
    with assms(1) [OF that(1)] show ?thesis by simp
  qed
  have inner: "length (?blk j) = ?n" if "j < m" for j
  proof -
    have "length (?blk j) = length (map (\<lambda>sens. sensor_points (h ! sens) ! j) sensors) * k_pixel"
      by (rule concat_uniform_length) (use pts that in auto)
    then show ?thesis by simp
  qed
  have "i * k_pixel + k_pixel \<le> ?n"
  proof -
    from assms(3) have "Suc i \<le> length sensors" by simp
    then have "Suc i * k_pixel \<le> ?n" by (rule mult_le_mono1)
    then show ?thesis by simp
  qed
  with assms(4) have p: "i * k_pixel + q < ?n" by simp
  have "observer_positions h sensors m ! (j * ?n + (i * k_pixel + q)) =
        map ?blk [0..<m] ! j ! (i * k_pixel + q)"
    unfolding observer_positions_def
    by (rule concat_uniform_nth) (use inner assms(2) p in auto)
  also have "\<dots> = ?blk j ! (i * k_pixel + q)" using assms(2) by simp
  also have "\<dots> = map (\<lambda>sens. sensor_points (h ! sens) ! j) sensors ! i ! q"
    by (rule concat_uniform_nth) (use assms(2-4) pts in auto)
  also have "\<dots> = obs_point (h ! (sensors ! i)) j q"
    using assms by (simp add: sensor_points_nth(2))
  finally show ?thesis .
qed

lemma src_field_source_field:
  assumes "length (pos (h ! a)) = m" and "length (rot (h ! a)) = m" and "j < m"
  shows "src_field F bh h a j po = source_field F bh (h ! a) j po"
  using assms by (simp add: src_field_def source_field_def path_at_nth)

lemma world_rows_nth:
  assumes "j < m" and "p < n"
  shows "world_rows F bh h poso m n a ! j ! p = src_field F bh h a j (poso ! (j * n + p))"
  using assms by (simp add: world_rows_def)

lemma world_rows_wf:
  "length (world_rows F bh h poso m n a) = m \<and> (\<forall>r \<in> set (world_rows F bh h poso m n a). length r = n)"
  by (auto simp: world_rows_def)

lemma sum_axis0_wf:
  assumes "\<And>w. w \<in> set Ws \<Longrightarrow> length w = m \<and> (\<forall>r \<in> set w. length r = n)"
  shows "length (sum_axis0 m n Ws) = m \<and> (\<forall>r \<in> set (sum_axis0 m n Ws). length r = n)"
  unfolding sum_axis0_def by (rule fold_add_shape [OF assms]) auto

lemma entry_rows_wf:
  "length (entry_rows (world_rows F bh h poso m n) m n e) = m
   \<and> (\<forall>r \<in> set (entry_rows (world_rows F bh h poso m n) m n e). length r = n)"
proof (cases e)
  case (Obj a)
  then show ?thesis using world_rows_wf by (simp add: entry_rows_def)
next
  case (Collection srcs)
  have "\<And>w. w \<in> set (map (world_rows F bh h poso m n) srcs) \<Longrightarrow>
          length w = m \<and> (\<forall>r \<in> set w. length r = n)"
    using world_rows_wf by auto
  then have "length (sum_axis0 m n (map (world_rows F bh h poso m n) srcs)) = m
       \<and> (\<forall>r \<in> set (sum_axis0 m n (map (world_rows F bh h poso m n) srcs)). length r = n)"
    by (rule sum_axis0_wf)
  with Collection show ?thesis
    by (simp add: entry_rows_def)
qed

lemma entry_rows_nth:
  assumes len: "\<And>a. a \<in> set (members e) \<Longrightarrow> length (pos (h ! a)) = m \<and> length (rot (h ! a)) = m"
    and j: "j < m" and p: "p < n"
  shows "entry_rows (world_rows F bh h poso m n) m n e ! j ! p =
         entry_field F bh h e j (poso ! (j * n + p))"
proof (cases e)
  case (Obj a)
  with len have "length (pos (h ! a)) = m" "length (rot (h ! a)) = m" by simp_all
  then show ?thesis
    using j p Obj by (simp add: entry_rows_def entry_field_def world_rows_nth src_field_source_field)
next
  case (Collection srcs)
  have wf: "\<And>w. w \<in> set (map (world_rows F bh h poso m n) srcs) \<Longrightarrow>
          length w = m \<and> (\<forall>r \<in> set w. length r = n)"
    using world_rows_wf by auto
  have "sum_axis0 m n (map (world_rows F bh h poso m n) srcs) ! j ! p =
        vsum (map (\<lambda>w. w ! j ! p) (map (world_rows F bh h poso m n) srcs))"
    using wf j p by (rule sum_axis0_nth)
  also have "map (\<lambda>w. w ! j ! p) (map (world_rows F bh h poso m n) srcs) =
             map (\<lambda>a. source_field F bh (h ! a) j (poso ! (j * n + p))) srcs"
  proof -
    have "world_rows F bh h poso m n a ! j ! p = source_field F bh (h ! a) j (poso ! (j * n + p))"
      if "a \<in> set srcs" for a
    proof -
      from that len Collection have "length (pos (h ! a)) = m" "length (rot (h ! a)) = m" by simp_all
      then show ?thesis using j p by (simp add: world_rows_nth src_field_source_field)
    qed
    then show ?thesis by simp
  qed
  finally show ?thesis using Collection by (simp add: entry_rows_def entry_field_def)
qed

lemma field_tensor_shape:
  "well_shaped m (length sensors * k_pixel) (field_tensor F bh h sources sensors m k_pixel)"
  by (auto simp: well_shaped_def field_tensor_def)

lemma rotated_field_tensor:
  assumes srcs: "\<And>a. a \<in> set (concat (map members sources)) \<Longrightarrow>
                   length (pos (h ! a)) = m \<and> length (rot (h ! a)) = m"
    and sens: "\<And>s. s \<in> set sensors \<Longrightarrow> length (pos (h ! s)) = m \<and> length (rot (h ! s)) = m
              \<and> length (rows (pos_pix (h ! s))) = k_pixel"
  shows "map (rotated_upto h sensors k_pixel m (length sensors))
           (map (entry_rows (world_rows F bh h (observer_positions h sensors m) m (length sensors * k_pixel))
                   m (length sensors * k_pixel)) sources) =
         field_tensor F bh h sources sensors m k_pixel"
proof -
  let ?k = "length sensors" and ?n = "length sensors * k_pixel"
  let ?poso = "observer_positions h sensors m"
  let ?W = "world_rows F bh h ?poso m ?n"
  let ?P = "List.product [0..<?k] [0..<k_pixel]"
  have elem: "(if fst x < ?k
               then apply_q (inv_q (rot (h ! (sensors ! fst x)) ! j))
                      (entry_rows ?W m ?n e ! j ! (fst x * k_pixel + snd x))
               else entry_rows ?W m ?n e ! j ! (fst x * k_pixel + snd x)) =
              sensor_field F bh h e (sensors ! fst x) j (snd x)"
    if e: "e \<in> set sources" and j: "j < m" and x: "x \<in> set ?P" for e j x
  proof -
    from x have i: "fst x < ?k" and q: "snd x < k_pixel" by auto
    from i have s: "sensors ! fst x \<in> set sensors" by simp
    have "fst x * k_pixel + k_pixel \<le> ?n"
    proof -
      from i have "Suc (fst x) \<le> ?k" by simp
      then have "Suc (fst x) * k_pixel \<le> ?n" by (rule mult_le_mono1)
      then show ?thesis by simp
    qed
    with q have p: "fst x * k_pixel + snd x < ?n" by simp
    have mem: "\<And>a. a \<in> set (members e) \<Longrightarrow> length (pos (h ! a)) = m \<and> length (rot (h ! a)) = m"
      using srcs e by auto
    have 1: "entry_rows ?W m ?n e ! j ! (fst x * k_pixel + snd x) =
             entry_field F bh h e j (?poso ! (j * ?n + (fst x * k_pixel + snd x)))"
      using mem j p by (rule entry_rows_nth)
    have 2: "?poso ! (j * ?n + (fst x * k_pixel + snd x)) = obs_point (h ! (sensors ! fst x)) j (snd x)"
      using sens j i q by (rule observer_positions_nth)
    have 3: "rot (h ! (sensors ! fst x)) ! j = path_at (rot (h ! (sensors ! fst x))) j"
      using sens [OF s] j by (simp add: path_at_nth)
    show ?thesis
      using i by (simp only: 1 2 3 sensor_field_def if_True)
  qed
  have "map (rotated_upto h sensors k_pixel m ?k) (map (entry_rows ?W m ?n) sources) =
        map (\<lambda>e. rotated_upto h sensors k_pixel m ?k (entry_rows ?W m ?n e)) sources"
    by simp
  also have "\<dots> = map (\<lambda>e. map (\<lambda>j. map (\<lambda>x. sensor_field F bh h e (sensors ! fst x) j (snd x)) ?P) [0..<m]) sources"
  proof (rule map_cong [OF refl])
    fix e assume e: "e \<in> set sources"
    show "rotated_upto h sensors k_pixel m ?k (entry_rows ?W m ?n e) =
          map (\<lambda>j. map (\<lambda>x. sensor_field F bh h e (sensors ! fst x) j (snd x)) ?P) [0..<m]"
      unfolding rotated_upto_def
    proof (rule map_cong [OF refl])
      fix j assume "j \<in> set [0..<m]"
      then have j: "j < m" by simp
      show "map (\<lambda>x. if fst x < ?k
               then apply_q (inv_q (rot (h ! (sensors ! fst x)) ! j))
                      (entry_rows ?W m ?n e ! j ! (fst x * k_pixel + snd x))
               else entry_rows ?W m ?n e ! j ! (fst x * k_pixel + snd x)) ?P =
            map (\<lambda>x. sensor_field F bh h e (sensors ! fst x) j (snd x)) ?P"
        by (rule map_cong [OF refl]) (rule elem [OF e j])
    qed
  qed
  finally show ?thesis by (simp only: field_tensor_def)
qed

lemma prod_list_pix:
  assumes "pix_shape \<noteq> []" and "last pix_shape = 3"
  shows "prod_list pix_shape = prod_list (butlast pix_shape) * 3"
proof -
  from assms(1) have "pix_shape = butlast pix_shape @ [last pix_shape]" by simp
  then have "prod_list pix_shape = prod_list (butlast pix_shape @ [last pix_shape])" by simp
  with assms(2) show ?thesis by simp
qed

lemma compute_ok:
  assumes m: "0 < m"
    and src: "src_list = format_obj_input sources"
    and ne: "\<And>e. e \<in> set sources \<Longrightarrow> members e \<noteq> []"
    and rec: "\<And>a. a \<in> set src_list \<Longrightarrow> obj_class (h ! a) \<in> {Box, Cylinder, Sphere, Dipole}"
    and len: "\<And>a. a \<in> set src_list \<union> set sensors \<Longrightarrow>
                length (pos (h ! a)) = m \<and> length (rot (h ! a)) = m"
    and pix: "\<And>s. s \<in> set sensors \<Longrightarrow>
                length (rows (pos_pix (h ! s))) = prod_list (butlast pix_shape)"
    and shp: "pix_shape \<noteq> []" "last pix_shape = 3"
    and un: "\<And>i. i < length sensors \<Longrightarrow> unrotated ! i \<Longrightarrow> \<forall>j<m. rot (h ! (sensors ! i)) ! j = unitQ"
    and st: "\<And>i. i < length sensors \<Longrightarrow> static ! i \<Longrightarrow>
               \<forall>j<m. rot (h ! (sensors ! i)) ! j = rot (h ! (sensors ! i)) ! 0"
  shows "compute F bh h sources src_list sensors pix_shape unrotated static m sumup squeeze =
    (Inr (finish sumup squeeze
           \<lparr>shape = [length sources, m, length sensors] @ pix_shape,
            rows = concat (concat (field_tensor F bh h sources sensors m (prod_list (butlast pix_shape))))\<rparr>),
     compute_events bh h sources src_list sensors unrotated static (prod_list (butlast pix_shape)) m)"
proof -
  let ?kp = "prod_list (butlast pix_shape)"
  let ?k = "length sensors" and ?ltop = "length sources" and ?lflat = "length src_list"
  let ?n = "?k * ?kp"
  let ?poso = "observer_positions h sensors m"
  let ?W = "world_rows F bh h ?poso m ?n"
  let ?T = "map (entry_rows ?W m ?n) sources"
  let ?R = "field_tensor F bh h sources sensors m ?kp"
  have sens: "\<And>s. s \<in> set sensors \<Longrightarrow> length (pos (h ! s)) = m \<and> length (rot (h ! s)) = m
              \<and> length (rows (pos_pix (h ! s))) = ?kp"
    using len pix by simp
  have lp: "length ?poso = m * ?n"
    using sens by (rule observer_positions_length)
  with m have nn: "length ?poso div m = ?n" by simp
  have "\<forall>x \<in> set (enumerate 0 src_list). obj_class (h ! snd x) \<in> {Box, Cylinder, Sphere, Dipole}"
  proof
    fix x assume "x \<in> set (enumerate 0 src_list)"
    then have "snd x = src_list ! fst x" and "fst x < length src_list"
      by (simp_all add: enumerate_snd_nth)
    then have "snd x \<in> set src_list" by simp
    then show "obj_class (h ! snd x) \<in> {Box, Cylinder, Sphere, Dipole}" by (rule rec)
  qed
  from group_sources_ok [OF this, of "[]" "[]" "[]" "[]" "[]" "[]" "[]" "[]"]
  obtain src_sorted order where
    gs: "group_sources h (enumerate 0 src_list) ([[], [], [], []], [[], [], [], []]) = Inr (src_sorted, order)"
    by blast
  have disp: "for_loop (eval_group F bh h src_sorted order ?poso m ?n) [0, 1, 2, 3]
           (replicate ?lflat (replicate m (replicate ?n vzero))) =
         (Inr (map ?W src_list), level1_events bh h src_list m ?n)"
    by (rule dispatch_ok [OF rec _ lp m gs]) (use len in auto)
  have sum: "(if ?lflat > ?ltop then for_loop (sum_entry m ?n) (enumerate 0 sources) (map ?W src_list)
              else (Inr (map ?W src_list), [])) =
         (Inr ?T, if ?lflat > ?ltop then concat (map sum_event (enumerate 0 sources)) else [])"
  proof (cases "?lflat > ?ltop")
    case True
    have "for_loop (sum_entry m ?n) (enumerate 0 sources) ([] @ map ?W (concat (map members sources))) =
         (Inr ([] @ ?T), concat (map sum_event (enumerate 0 sources)))"
      by (rule sum_loop [OF ne]) simp_all
    with True show ?thesis by (simp add: src format_obj_input_def)
  next
    case False
    then have nl: "\<not> length (concat (map members sources)) > length sources"
      by (simp add: src format_obj_input_def)
    have "map ?W (concat (map members sources)) = ?T"
    proof (rule no_sum_needed [OF _ nl])
      show "\<And>e. e \<in> set sources \<Longrightarrow> members e \<noteq> []" by (rule ne)
      show "\<And>a. length (?W a) = m" by (simp add: world_rows_def)
      show "\<And>a r. r \<in> set (?W a) \<Longrightarrow> length r = ?n" by (auto simp: world_rows_def)
    qed
    with False show ?thesis by (simp add: src format_obj_input_def)
  qed
  have wsT: "well_shaped m ?n ?T"
    unfolding well_shaped_def using entry_rows_wf by auto
  have rotl: "for_loop (rot_sensor h unrotated static ?kp ?ltop m) (enumerate 0 sensors) ?T =
           (Inr (map (rotated_upto h sensors ?kp m ?k) ?T),
            concat (map (rot_events h unrotated static ?kp ?ltop m) (enumerate 0 sensors)))"
  proof -
    have "for_loop (rot_sensor h unrotated static ?kp ?ltop m) (enumerate 0 (take ?k sensors)) ?T =
           (Inr (map (rotated_upto h sensors ?kp m ?k) ?T),
            concat (map (rot_events h unrotated static ?kp ?ltop m) (enumerate 0 (take ?k sensors))))"
      by (rule rot_all_upto [OF wsT _ un st]) simp_all
    then show ?thesis by simp
  qed
  have "map (rotated_upto h sensors ?kp m ?k) ?T = ?R"
  proof (rule rotated_field_tensor [OF _ sens])
    fix a assume "a \<in> set (concat (map members sources))"
    then have "a \<in> set src_list" by (simp add: src format_obj_input_def)
    then show "length (pos (h ! a)) = m \<and> length (rot (h ! a)) = m" using len by simp
  qed
  with rotl have rot: "for_loop (rot_sensor h unrotated static ?kp ?ltop m) (enumerate 0 sensors) ?T =
           (Inr ?R, concat (map (rot_events h unrotated static ?kp ?ltop m) (enumerate 0 sensors)))"
    by simp
  have cnt: "length (concat (concat ?R)) = ?ltop * m * ?n"
  proof -
    have "well_shaped m ?n ?R" by (rule field_tensor_shape)
    from tensor_count [OF this] show ?thesis by (simp add: field_tensor_def)
  qed
  have resh: "np_reshape ([?ltop, m] @ [?k] @ pix_shape) ?R =
              Inr \<lparr>shape = [?ltop, m, ?k] @ pix_shape, rows = concat (concat ?R)\<rparr>"
    unfolding np_reshape_def cnt using prod_list_pix [OF shp] by simp
  show ?thesis
    unfolding compute_def Let_def nn gs
    by (simp only: sum.case prod.case disp then_do_Inr fst_conv snd_conv sum rot resh
          finish_def Let_def compute_events_def append_Nil2 append_assoc)
qed

lemma tile_up_nth:
  assumes "1 < m" and "a < length h"
  shows "fst (tile_up m objs h rs) ! a =
         (if a \<in> set objs \<and> length (pos (h ! a)) = 1 then tile_obj m (h ! a) else h ! a)"
  using assms(2)
proof (induction objs arbitrary: h rs)
  case Nil
  then show ?case by simp
next
  case (Cons obj objs)
  show ?case
  proof (cases "length (pos (h ! obj)) = 1")
    case True
    let ?h1 = "h[obj := tile_obj m (h ! obj)]"
    have a1: "a < length ?h1" using Cons.prems by simp
    have step: "fst (tile_up m (obj # objs) h rs) ! a =
          (if a \<in> set objs \<and> length (pos (?h1 ! a)) = 1 then tile_obj m (?h1 ! a) else ?h1 ! a)"
      using Cons.IH [OF a1, of "rs @ [obj]"] True by simp
    show ?thesis
    proof (cases "a = obj")
      case eq: True
      have "?h1 ! a = tile_obj m (h ! a)" using eq Cons.prems by simp
      moreover have "length (pos (tile_obj m (h ! a))) \<noteq> 1"
        using assms(1) by (simp add: tile_obj_def)
      ultimately show ?thesis using step eq True by simp
    next
      case False
      then have "?h1 ! a = h ! a" by simp
      with step False show ?thesis by simp
    qed
  next
    case False
    have "fst (tile_up m (obj # objs) h rs) ! a =
          (if a \<in> set objs \<and> length (pos (h ! a)) = 1 then tile_obj m (h ! a) else h ! a)"
      using Cons.IH [OF Cons.prems, of rs] False by simp
    with False show ?thesis by auto
  qed
qed

lemma tiled_store_length: "length (tiled_store m objs h) = length h"
  by (simp add: tiled_store_def tile_up_length)

lemma tiled_store_nth:
  assumes "a < length h"
  shows "tiled_store m objs h ! a =
         (if 1 < m \<and> a \<in> set objs \<and> length (pos (h ! a)) = 1 then tile_obj m (h ! a) else h ! a)"
  using assms by (simp add: tiled_store_def tile_up_nth)

lemma concat_replicate_single: "concat (replicate m [r]) = replicate m r"
  by (induction m) simp_all

lemma tiled_obj:
  assumes gp: "good_paths h objs m" and m: "0 < m" and a: "a \<in> set objs"
  shows "length (pos (tiled_store m objs h ! a)) = m"
    and "length (rot (tiled_store m objs h ! a)) = m"
    and "j < m \<Longrightarrow> pos (tiled_store m objs h ! a) ! j = path_at (pos (h ! a)) j"
    and "j < m \<Longrightarrow> rot (tiled_store m objs h ! a) ! j = path_at (rot (h ! a)) j"
    and "obj_class (tiled_store m objs h ! a) = obj_class (h ! a)"
    and "mag (tiled_store m objs h ! a) = mag (h ! a)"
    and "dim (tiled_store m objs h ! a) = dim (h ! a)"
    and "moment (tiled_store m objs h ! a) = moment (h ! a)"
    and "pos_pix (tiled_store m objs h ! a) = pos_pix (h ! a)"
proof -
  from gp a have al: "a < length h" and rl: "length (rot (h ! a)) = length (pos (h ! a))"
    and pl: "length (pos (h ! a)) = 1 \<or> length (pos (h ! a)) = m"
    by (auto simp: good_paths_def)
  note nth = tiled_store_nth [OF al, of m objs]
  show "obj_class (tiled_store m objs h ! a) = obj_class (h ! a)"
    and "mag (tiled_store m objs h ! a) = mag (h ! a)"
    and "dim (tiled_store m objs h ! a) = dim (h ! a)"
    and "moment (tiled_store m objs h ! a) = moment (h ! a)"
    and "pos_pix (tiled_store m objs h ! a) = pos_pix (h ! a)"
    by (simp_all add: nth tile_obj_def)
  show "length (pos (tiled_store m objs h ! a)) = m"
    using pl m a by (auto simp: nth tile_obj_def)
  show "length (rot (tiled_store m objs h ! a)) = m"
  proof (cases "1 < m \<and> length (pos (h ! a)) = 1")
    case True
    with rl obtain r where "rot (h ! a) = [r]" by (cases "rot (h ! a)") auto
    with True a show ?thesis by (simp add: nth tile_obj_def concat_replicate_single)
  next
    case False
    with pl m rl show ?thesis by (auto simp: nth)
  qed
  show "pos (tiled_store m objs h ! a) ! j = path_at (pos (h ! a)) j" if "j < m"
  proof (cases "1 < m \<and> length (pos (h ! a)) = 1")
    case True
    with a that show ?thesis by (simp add: nth tile_obj_def path_at_def)
  next
    case False
    with pl m have "length (pos (h ! a)) = m" by auto
    with that have "path_at (pos (h ! a)) j = pos (h ! a) ! j" by (simp add: path_at_nth)
    with False show ?thesis by (auto simp: nth)
  qed
  show "rot (tiled_store m objs h ! a) ! j = path_at (rot (h ! a)) j" if "j < m"
  proof (cases "1 < m \<and> length (pos (h ! a)) = 1")
    case True
    with rl obtain r where "rot (h ! a) = [r]" by (cases "rot (h ! a)") auto
    with True a that show ?thesis by (simp add: nth tile_obj_def path_at_def concat_replicate_single)
  next
    case False
    with pl m rl have "length (rot (h ! a)) = m" by auto
    with that have "path_at (rot (h ! a)) j = rot (h ! a) ! j" by (simp add: path_at_nth)
    with False show ?thesis by (auto simp: nth)
  qed
qed

subsection \<open>The reset\<close>

lemma reset_obj_idem: "reset_obj (reset_obj g) = reset_obj g"
  by (simp add: reset_obj_def)

lemma reset_tiled_length: "length (reset_tiled rs h) = length h"
  unfolding reset_tiled_def by (induction rs arbitrary: h) simp_all

lemma reset_tiled_nth:
  assumes "a < length h"
  shows "reset_tiled rs h ! a = (if a \<in> set rs then reset_obj (h ! a) else h ! a)"
  using assms unfolding reset_tiled_def
proof (induction rs arbitrary: h)
  case Nil
  then show ?case by simp
next
  case (Cons r rs)
  let ?h1 = "h[r := reset_obj (h ! r)]"
  have a1: "a < length ?h1" using Cons.prems by simp
  have "fold (\<lambda>obj h. h[obj := reset_obj (h ! obj)]) (r # rs) h ! a =
        (if a \<in> set rs then reset_obj (?h1 ! a) else ?h1 ! a)"
    using Cons.IH [OF a1] by simp
  also have "\<dots> = (if a \<in> set (r # rs) then reset_obj (h ! a) else h ! a)"
    using Cons.prems by (cases "a = r") (simp_all add: reset_obj_idem)
  finally show ?case .
qed

lemma tile_up_reset_set:
  assumes "1 < m"
  shows "set (snd (tile_up m objs h rs)) \<inter> {a. a < length h} =
         (set rs \<union> {a \<in> set objs. length (pos (h ! a)) = 1}) \<inter> {a. a < length h}"
proof (induction objs arbitrary: h rs)
  case Nil
  then show ?case by simp
next
  case (Cons obj objs)
  show ?case
  proof (cases "length (pos (h ! obj)) = 1")
    case True
    let ?h1 = "h[obj := tile_obj m (h ! obj)]"
    have "set (snd (tile_up m (obj # objs) h rs)) \<inter> {a. a < length h} =
          (set (rs @ [obj]) \<union> {a \<in> set objs. length (pos (?h1 ! a)) = 1}) \<inter> {a. a < length h}"
      using Cons.IH [of ?h1 "rs @ [obj]"] True by simp
    also have "\<dots> = (set rs \<union> {a \<in> set (obj # objs). length (pos (h ! a)) = 1}) \<inter> {a. a < length h}"
    proof -
      have "x \<in> set (rs @ [obj]) \<union> {a \<in> set objs. length (pos (?h1 ! a)) = 1} \<longleftrightarrow>
            x \<in> set rs \<union> {a \<in> set (obj # objs). length (pos (h ! a)) = 1}"
        if x: "x < length h" for x
      proof (cases "x = obj")
        case eq: True
        then show ?thesis using True by simp
      next
        case False
        then have "?h1 ! x = h ! x" by simp
        with False show ?thesis by simp
      qed
      then show ?thesis by blast
    qed
    finally show ?thesis .
  next
    case False
    have "set (snd (tile_up m (obj # objs) h rs)) \<inter> {a. a < length h} =
          (set rs \<union> {a \<in> set objs. length (pos (h ! a)) = 1}) \<inter> {a. a < length h}"
      using Cons.IH [of h rs] False by simp
    with False show ?thesis by auto
  qed
qed

lemma reset_tile_obj:
  assumes "0 < m" and "length (pos g) = 1" and "length (rot g) = 1"
  shows "reset_obj (tile_obj m g) = g"
proof -
  from assms obtain p r where "pos g = [p]" "rot g = [r]"
    by (cases "pos g"; cases "rot g") auto
  with assms(1) show ?thesis
    by (simp add: reset_obj_def tile_obj_def concat_replicate_single)
qed

lemma reset_restores:
  assumes gp: "good_paths h objs m"
  shows "reset_tiled (snd (if m > 1 then tile_up m objs h [] else (h, []))) (tiled_store m objs h) = h"
proof (cases "1 < m")
  case False
  then show ?thesis by (simp add: tiled_store_def reset_tiled_def)
next
  case True
  let ?rs = "snd (tile_up m objs h [])"
  let ?h' = "tiled_store m objs h"
  have "reset_tiled ?rs ?h' = h"
  proof (rule nth_equalityI)
    show "length (reset_tiled ?rs ?h') = length h"
      by (simp add: reset_tiled_length tiled_store_length)
  next
    fix a assume "a < length (reset_tiled ?rs ?h')"
    then have al: "a < length h" by (simp add: reset_tiled_length tiled_store_length)
    then have al': "a < length ?h'" by (simp add: tiled_store_length)
    have mem: "a \<in> set ?rs \<longleftrightarrow> a \<in> set objs \<and> length (pos (h ! a)) = 1"
      using tile_up_reset_set [OF True, of objs h "[]"] al by auto
    show "reset_tiled ?rs ?h' ! a = h ! a"
    proof (cases "a \<in> set objs \<and> length (pos (h ! a)) = 1")
      case t: True
      with gp have "length (rot (h ! a)) = 1" by (auto simp: good_paths_def)
      with t True have "reset_obj (tile_obj m (h ! a)) = h ! a"
        by (intro reset_tile_obj) simp_all
      with t True mem show ?thesis
        by (simp add: reset_tiled_nth [OF al'] tiled_store_nth [OF al])
    next
      case f: False
      with mem show ?thesis
        by (auto simp: reset_tiled_nth [OF al'] tiled_store_nth [OF al])
    qed
  qed
  with True show ?thesis by simp
qed

subsection \<open>The checks\<close>

lemma good_path_length:
  assumes gp: "get_good_path_length h objs = Inr m"
    and wf: "\<And>a. a \<in> set objs \<Longrightarrow> wf_obj h a"
    and ne: "objs \<noteq> []"
  shows "good_paths h objs m" and "0 < m"
proof -
  let ?pls = "map (\<lambda>a. length (pos (h ! a))) objs"
  from gp have all: "list_all (\<lambda>pl. pl = 1 \<or> pl = fold max ?pls 0) ?pls"
    and m: "m = fold max ?pls 0"
    by (auto simp: get_good_path_length_def Let_def split: if_splits)
  have one: "length (pos (h ! a)) = 1 \<or> length (pos (h ! a)) = m" if "a \<in> set objs" for a
  proof -
    from that have "length (pos (h ! a)) \<in> set ?pls" by auto
    with all show ?thesis unfolding list_all_iff m by blast
  qed
  with wf show "good_paths h objs m"
    by (auto simp: good_paths_def wf_obj_def)
  from ne have pne: "?pls \<noteq> []" by simp
  from ne obtain a where a: "a \<in> set objs" by (cases objs) auto
  then have mem: "length (pos (h ! a)) \<in> set ?pls" by auto
  have "length (pos (h ! a)) \<le> Max (set ?pls)"
    by (rule Max_ge [OF _ mem]) simp
  then have "length (pos (h ! a)) \<le> m"
    by (simp only: m fold_max_Max [OF pne])
  moreover from wf [OF a] have "pos (h ! a) \<noteq> []" by (simp add: wf_obj_def)
  ultimately show "0 < m" by (cases "pos (h ! a)") auto
qed

lemma wrap_items_ne: "obs \<noteq> [] \<or> acc \<noteq> [] \<Longrightarrow> fst (wrap_items obs acc h) \<noteq> []"
  by (induction obs acc h rule: wrap_items.induct) simp_all

lemma format_observers_ne:
  assumes "format_observers observers h0 = Inr (sensors, h)"
  shows "sensors \<noteq> []"
proof (cases observers)
  case (ObsSensor a)
  with assms show ?thesis by auto
next
  case (ObsArray x)
  with assms show ?thesis by auto
next
  case (ObsList obs)
  show ?thesis
  proof (cases "list_ex is_sensor obs")
    case True
    then have "obs \<noteq> []" by auto
    then have "fst (wrap_items obs [] h0) \<noteq> []" by (simp add: wrap_items_ne)
    with assms ObsList True show ?thesis by auto
  next
    case False
    with assms ObsList show ?thesis by (auto split: sum.splits)
  qed
qed

lemma all_same_nth:
  assumes "all_same xs" and "x \<in> set xs"
  shows "x = xs ! 0"
proof -
  from assms(2) have "xs \<noteq> []" by auto
  then have "hd xs = xs ! 0" by (simp add: hd_conv_nth)
  with assms show ?thesis by (auto simp: all_same_def list_all_iff)
qed

subsection \<open>The tiled store and the original paths\<close>

lemma path_at_mem:
  assumes "length xs = 1 \<or> length xs = m" and "j < m"
  shows "path_at xs j \<in> set xs"
  using assms by (auto simp: path_at_def)

lemma source_field_tiled:
  assumes gp: "good_paths h objs m" and m: "0 < m" and a: "a \<in> set objs" and j: "j < m"
  shows "source_field F bh (tiled_store m objs h ! a) j po = source_field F bh (h ! a) j po"
proof -
  note t = tiled_obj [OF gp m a]
  have p: "path_at (pos (tiled_store m objs h ! a)) j = path_at (pos (h ! a)) j"
    using t(1) t(3) [OF j] j by (simp add: path_at_nth)
  have r: "path_at (rot (tiled_store m objs h ! a)) j = path_at (rot (h ! a)) j"
    using t(2) t(4) [OF j] j by (simp add: path_at_nth)
  show ?thesis
    unfolding source_field_def p r t(5) t(6) t(7) t(8) ..
qed

lemma entry_field_tiled:
  assumes gp: "good_paths h objs m" and m: "0 < m" and e: "set (members e) \<subseteq> set objs" and j: "j < m"
  shows "entry_field F bh (tiled_store m objs h) e j po = entry_field F bh h e j po"
proof (cases e)
  case (Obj a)
  with e have "a \<in> set objs" by simp
  from source_field_tiled [OF gp m this j] Obj show ?thesis by (simp add: entry_field_def)
next
  case (Collection srcs)
  have eq: "map (\<lambda>a. source_field F bh (tiled_store m objs h ! a) j po) srcs =
        map (\<lambda>a. source_field F bh (h ! a) j po) srcs"
  proof (rule map_cong [OF refl])
    fix a assume "a \<in> set srcs"
    with e Collection have "a \<in> set objs" by auto
    from source_field_tiled [OF gp m this j]
    show "source_field F bh (tiled_store m objs h ! a) j po = source_field F bh (h ! a) j po" .
  qed
  show ?thesis unfolding Collection entry_field_def by (simp only: src_entry.case eq)
qed

lemma sensor_field_tiled:
  assumes gp: "good_paths h objs m" and m: "0 < m" and e: "set (members e) \<subseteq> set objs"
    and s: "s \<in> set objs" and j: "j < m"
  shows "sensor_field F bh (tiled_store m objs h) e s j q = sensor_field F bh h e s j q"
proof -
  note t = tiled_obj [OF gp m s]
  have p: "path_at (pos (tiled_store m objs h ! s)) j = path_at (pos (h ! s)) j"
    using t(1) t(3) [OF j] j by (simp add: path_at_nth)
  have r: "path_at (rot (tiled_store m objs h ! s)) j = path_at (rot (h ! s)) j"
    using t(2) t(4) [OF j] j by (simp add: path_at_nth)
  show ?thesis
    unfolding sensor_field_def obs_point_def p r t(9) entry_field_tiled [OF gp m e j] ..
qed

lemma members_subset: "e \<in> set sources \<Longrightarrow> set (members e) \<subseteq> set (format_obj_input sources)"
  by (auto simp: format_obj_input_def)

lemma field_tensor_tiled:
  assumes gp: "good_paths h (format_obj_input sources @ sensors) m" and m: "0 < m"
  shows "field_tensor F bh (tiled_store m (format_obj_input sources @ sensors) h) sources sensors m k_pixel =
         field_tensor F bh h sources sensors m k_pixel"
  unfolding field_tensor_def
proof (rule map_cong [OF refl], rule map_cong [OF refl], rule map_cong [OF refl])
  fix e j x
  assume e: "e \<in> set sources" and j: "j \<in> set [0..<m]"
    and x: "x \<in> set (List.product [0..<length sensors] [0..<k_pixel])"
  from e have sub: "set (members e) \<subseteq> set (format_obj_input sources @ sensors)"
    using members_subset [of e sources] by auto
  from x have "sensors ! fst x \<in> set sensors" by auto
  then have s: "sensors ! fst x \<in> set (format_obj_input sources @ sensors)" by simp
  from j have "j < m" by simp
  from sensor_field_tiled [OF gp m sub s this]
  show "sensor_field F bh (tiled_store m (format_obj_input sources @ sensors) h) e (sensors ! fst x) j (snd x) =
        sensor_field F bh h e (sensors ! fst x) j (snd x)" .
qed

subsection \<open>The sensor flags\<close>

lemma unrotated_tiled:
  assumes gp: "good_paths h objs m" and m: "0 < m" and s: "sensors ! i \<in> set objs"
    and i: "i < length sensors" and u: "unrotated_sensors h sensors ! i" and j: "j < m"
  shows "rot (tiled_store m objs h ! (sensors ! i)) ! j = unitQ"
proof -
  from gp s have "length (rot (h ! (sensors ! i))) = 1 \<or> length (rot (h ! (sensors ! i))) = m"
    by (auto simp: good_paths_def)
  from path_at_mem [OF this j] have "path_at (rot (h ! (sensors ! i))) j \<in> set (rot (h ! (sensors ! i)))" .
  moreover from u i have "list_all (\<lambda>r. r = unitQ) (rot (h ! (sensors ! i)))"
    by (simp add: unrotated_sensors_def)
  ultimately have "path_at (rot (h ! (sensors ! i))) j = unitQ"
    unfolding list_all_iff by blast
  with tiled_obj(4) [OF gp m s j] show ?thesis by simp
qed

lemma static_path_at:
  assumes gp: "good_paths h objs m" and s: "sensors ! i \<in> set objs"
    and i: "i < length sensors" and st: "static_sensor_rot h sensors ! i" and j: "j < m"
  shows "path_at (rot (h ! (sensors ! i))) j = rot (h ! (sensors ! i)) ! 0"
proof (cases "length (pos (h ! (sensors ! i))) = 1")
  case True
  with gp s have "length (rot (h ! (sensors ! i))) = 1" by (auto simp: good_paths_def)
  then show ?thesis by (simp add: path_at_def)
next
  case False
  with gp s have l: "length (rot (h ! (sensors ! i))) = m" by (auto simp: good_paths_def)
  with j have mem: "rot (h ! (sensors ! i)) ! j \<in> set (rot (h ! (sensors ! i)))" by simp
  from st i False have "list_all (\<lambda>r. r = rot (h ! (sensors ! i)) ! 0) (rot (h ! (sensors ! i)))"
    by (simp add: static_sensor_rot_def)
  with mem have "rot (h ! (sensors ! i)) ! j = rot (h ! (sensors ! i)) ! 0"
    unfolding list_all_iff by blast
  with l j show ?thesis by (simp add: path_at_nth)
qed

lemma static_tiled:
  assumes gp: "good_paths h objs m" and m: "0 < m" and s: "sensors ! i \<in> set objs"
    and i: "i < length sensors" and st: "static_sensor_rot h sensors ! i" and j: "j < m"
  shows "rot (tiled_store m objs h ! (sensors ! i)) ! j = rot (tiled_store m objs h ! (sensors ! i)) ! 0"
proof -
  have "rot (tiled_store m objs h ! (sensors ! i)) ! j = rot (h ! (sensors ! i)) ! 0"
    using tiled_obj(4) [OF gp m s j] static_path_at [OF gp s i st j] by simp
  moreover have "rot (tiled_store m objs h ! (sensors ! i)) ! 0 = rot (h ! (sensors ! i)) ! 0"
    using tiled_obj(4) [OF gp m s m] static_path_at [OF gp s i st m] by simp
  ultimately show ?thesis by simp
qed

subsection \<open>The events\<close>

lemma level1_events_tiled:
  assumes gp: "good_paths h objs m" and m: "0 < m" and sub: "set src_list \<subseteq> set objs"
  shows "level1_events bh (tiled_store m objs h) src_list m n = level1_events bh h src_list m n"
proof -
  have "family_members (tiled_store m objs h) src_list c = family_members h src_list c" for c
    unfolding family_members_def
  proof (rule filter_cong [OF refl])
    fix a assume "a \<in> set src_list"
    with sub have "a \<in> set objs" by blast
    from tiled_obj(5) [OF gp m this]
    show "(obj_class (tiled_store m objs h ! a) = c) = (obj_class (h ! a) = c)" by simp
  qed
  then show ?thesis by (simp add: level1_events_def)
qed

lemma rot_events_tiled:
  assumes gp: "good_paths h objs m" and m: "0 < m" and s: "sensors ! i \<in> set objs"
    and i: "i < length sensors"
  shows "rot_events (tiled_store m objs h) (unrotated_sensors h sensors) (static_sensor_rot h sensors)
           k_pixel l0 m (i, sensors ! i) =
         rot_events h (unrotated_sensors h sensors) (static_sensor_rot h sensors) k_pixel l0 m (i, sensors ! i)"
proof (cases "static_sensor_rot h sensors ! i")
  case True
  have "rot (tiled_store m objs h ! (sensors ! i)) ! 0 = rot (h ! (sensors ! i)) ! 0"
    using tiled_obj(4) [OF gp m s m] by (simp add: path_at_def)
  with True show ?thesis by simp
next
  case False
  with i have "length (pos (h ! (sensors ! i))) \<noteq> 1"
    by (auto simp: static_sensor_rot_def split: if_splits)
  with gp s have l: "length (rot (h ! (sensors ! i))) = m" by (auto simp: good_paths_def)
  have "map (\<lambda>j. RotBack i (rot (tiled_store m objs h ! (sensors ! i)) ! j) (k_pixel * l0)) [0..<m] =
        map (\<lambda>j. RotBack i (rot (h ! (sensors ! i)) ! j) (k_pixel * l0)) [0..<m]"
  proof (rule map_cong [OF refl])
    fix j assume "j \<in> set [0..<m]"
    then have j: "j < m" by simp
    from tiled_obj(4) [OF gp m s j] l j
    show "RotBack i (rot (tiled_store m objs h ! (sensors ! i)) ! j) (k_pixel * l0) =
          RotBack i (rot (h ! (sensors ! i)) ! j) (k_pixel * l0)"
      by (simp add: path_at_nth)
  qed
  with False show ?thesis by simp
qed

lemma compute_events_tiled:
  assumes gp: "good_paths h (src_list @ sensors) m" and m: "0 < m"
  shows "compute_events bh (tiled_store m (src_list @ sensors) h) sources src_list sensors
           (unrotated_sensors h sensors) (static_sensor_rot h sensors) k_pixel m =
         compute_events bh h sources src_list sensors
           (unrotated_sensors h sensors) (static_sensor_rot h sensors) k_pixel m"
proof -
  have l1: "level1_events bh (tiled_store m (src_list @ sensors) h) src_list m (length sensors * k_pixel) =
            level1_events bh h src_list m (length sensors * k_pixel)"
    by (rule level1_events_tiled [OF gp m]) simp
  have r: "map (rot_events (tiled_store m (src_list @ sensors) h) (unrotated_sensors h sensors)
                  (static_sensor_rot h sensors) k_pixel (length sources) m) (enumerate 0 sensors) =
           map (rot_events h (unrotated_sensors h sensors)
                  (static_sensor_rot h sensors) k_pixel (length sources) m) (enumerate 0 sensors)"
  proof (rule map_cong [OF refl])
    fix x assume "x \<in> set (enumerate 0 sensors)"
    then have x: "snd x = sensors ! fst x" "fst x < length sensors"
      by (simp_all add: enumerate_snd_nth)
    then have "sensors ! fst x \<in> set (src_list @ sensors)" by simp
    from rot_events_tiled [OF gp m this x(2), of k_pixel "length sources"] x(1)
    show "rot_events (tiled_store m (src_list @ sensors) h) (unrotated_sensors h sensors)
            (static_sensor_rot h sensors) k_pixel (length sources) m x =
          rot_events h (unrotated_sensors h sensors) (static_sensor_rot h sensors) k_pixel (length sources) m x"
      by (cases x) simp
  qed
  show ?thesis unfolding compute_events_def l1 r ..
qed

subsection \<open>The evaluation of a good call\<close>

lemma tiled_compute_ok:
  assumes gp: "good_paths h (format_obj_input sources @ sensors) m" and m: "0 < m"
    and ne: "\<And>e. e \<in> set sources \<Longrightarrow> members e \<noteq> []"
    and rec: "\<And>a. a \<in> set (format_obj_input sources) \<Longrightarrow> obj_class (h ! a) \<in> {Box, Cylinder, Sphere, Dipole}"
    and pix: "\<And>s. s \<in> set sensors \<Longrightarrow> length (rows (pos_pix (h ! s))) = prod_list (butlast pix_shape)"
    and shp: "pix_shape \<noteq> []" "last pix_shape = 3"
  shows "tiled_compute F bh h sources (format_obj_input sources) sensors pix_shape
           (unrotated_sensors h sensors) (static_sensor_rot h sensors) m sumup squeeze =
    (Inr (finish sumup squeeze
           \<lparr>shape = [length sources, m, length sensors] @ pix_shape,
            rows = concat (concat (field_tensor F bh h sources sensors m (prod_list (butlast pix_shape))))\<rparr>),
     h,
     compute_events bh h sources (format_obj_input sources) sensors
       (unrotated_sensors h sensors) (static_sensor_rot h sensors) (prod_list (butlast pix_shape)) m)"
proof -
  let ?src = "format_obj_input sources"
  let ?objs = "?src @ sensors"
  let ?h' = "tiled_store m ?objs h"
  let ?kp = "prod_list (butlast pix_shape)"
  have c: "compute F bh ?h' sources ?src sensors pix_shape
             (unrotated_sensors h sensors) (static_sensor_rot h sensors) m sumup squeeze =
    (Inr (finish sumup squeeze
           \<lparr>shape = [length sources, m, length sensors] @ pix_shape,
            rows = concat (concat (field_tensor F bh ?h' sources sensors m ?kp))\<rparr>),
     compute_events bh ?h' sources ?src sensors
       (unrotated_sensors h sensors) (static_sensor_rot h sensors) ?kp m)"
  proof (rule compute_ok [OF m refl ne _ _ _ shp])
    fix a assume "a \<in> set ?src"
    then have "a \<in> set ?objs" by simp
    from tiled_obj(5) [OF gp m this] rec [OF \<open>a \<in> set ?src\<close>]
    show "obj_class (?h' ! a) \<in> {Box, Cylinder, Sphere, Dipole}" by simp
  next
    fix a assume "a \<in> set ?src \<union> set sensors"
    then have "a \<in> set ?objs" by simp
    from tiled_obj(1,2) [OF gp m this]
    show "length (pos (?h' ! a)) = m \<and> length (rot (?h' ! a)) = m" by simp
  next
    fix s assume s: "s \<in> set sensors"
    then have "s \<in> set ?objs" by simp
    from tiled_obj(9) [OF gp m this] pix [OF s]
    show "length (rows (pos_pix (?h' ! s))) = ?kp" by simp
  next
    fix i assume i: "i < length sensors" and u: "unrotated_sensors h sensors ! i"
    from i have s: "sensors ! i \<in> set ?objs" by simp
    show "\<forall>j<m. rot (?h' ! (sensors ! i)) ! j = unitQ"
      using unrotated_tiled [OF gp m s i u] by blast
  next
    fix i assume i: "i < length sensors" and st: "static_sensor_rot h sensors ! i"
    from i have s: "sensors ! i \<in> set ?objs" by simp
    show "\<forall>j<m. rot (?h' ! (sensors ! i)) ! j = rot (?h' ! (sensors ! i)) ! 0"
      using static_tiled [OF gp m s i st] by blast
  qed
  have c': "compute F bh ?h' sources ?src sensors pix_shape
             (unrotated_sensors h sensors) (static_sensor_rot h sensors) m sumup squeeze =
    (Inr (finish sumup squeeze
           \<lparr>shape = [length sources, m, length sensors] @ pix_shape,
            rows = concat (concat (field_tensor F bh h sources sensors m ?kp))\<rparr>),
     compute_events bh h sources ?src sensors
       (unrotated_sensors h sensors) (static_sensor_rot h sensors) ?kp m)"
    unfolding c field_tensor_tiled [OF gp m] compute_events_tiled [OF gp m] ..
  have r: "reset_tiled (snd (if m > 1 then tile_up m ?objs h [] else (h, []))) ?h' = h"
    by (rule reset_restores [OF gp])
  have h': "fst (if m > 1 then tile_up m ?objs h [] else (h, [])) = ?h'"
    by (simp add: tiled_store_def)
  show ?thesis
    unfolding tiled_compute_def Let_def h' c'
    by (simp only: fst_conv snd_conv sum.case r)
qed

lemma getBH_level2_ok:
  assumes fo: "format_observers observers h0 = Inr (sensors, h)"
    and same: "all_same (map (\<lambda>sens. shape (pos_pix (h ! sens))) sensors)"
    and gpl: "get_good_path_length h (format_obj_input (as_list sources) @ sensors) = Inr m"
    and wf: "\<And>a. a \<in> set (format_obj_input (as_list sources) @ sensors) \<Longrightarrow> wf_obj h a"
    and px: "\<And>s. s \<in> set sensors \<Longrightarrow> wf_pix (pos_pix (h ! s))"
    and rec: "\<And>a. a \<in> set (format_obj_input (as_list sources)) \<Longrightarrow>
                obj_class (h ! a) \<in> {Box, Cylinder, Sphere, Dipole}"
    and ne: "\<And>e. e \<in> set (as_list sources) \<Longrightarrow> members e \<noteq> []"
  shows "getBH_level2 F bh sources observers sumup squeeze h0 =
    (Inr (finish sumup squeeze
           \<lparr>shape = [length (as_list sources), m, length sensors] @ shape (pos_pix (h ! (sensors ! 0))),
            rows = concat (concat (field_tensor F bh h (as_list sources) sensors m
                     (prod_list (butlast (shape (pos_pix (h ! (sensors ! 0))))))))\<rparr>),
     h,
     compute_events bh h (as_list sources) (format_obj_input (as_list sources)) sensors
       (unrotated_sensors h sensors) (static_sensor_rot h sensors)
       (prod_list (butlast (shape (pos_pix (h ! (sensors ! 0)))))) m)"
proof -
  let ?srcs = "as_list sources"
  let ?objs = "format_obj_input ?srcs @ sensors"
  let ?shapes = "map (\<lambda>sens. shape (pos_pix (h ! sens))) sensors"
  let ?pix = "shape (pos_pix (h ! (sensors ! 0)))"
  from format_observers_ne [OF fo] have sne: "sensors \<noteq> []" .
  then have one: "?objs \<noteq> []" by simp
  have gp: "good_paths h ?objs m" and m: "0 < m"
    using good_path_length [OF gpl wf one] by blast+
  from sne have p0: "?shapes ! 0 = ?pix" by (cases sensors) simp_all
  from sne have s0: "sensors ! 0 \<in> set sensors" by (cases sensors) simp_all
  have shp: "?pix \<noteq> []" "last ?pix = 3"
    using px [OF s0] by (simp_all add: wf_pix_def)
  have pix: "length (rows (pos_pix (h ! s))) = prod_list (butlast ?pix)" if "s \<in> set sensors" for s
  proof -
    from that have "shape (pos_pix (h ! s)) \<in> set ?shapes" by auto
    from all_same_nth [OF same this] p0 have "shape (pos_pix (h ! s)) = ?pix" by simp
    with px [OF that] show ?thesis by (simp add: wf_pix_def)
  qed
  have tc: "tiled_compute F bh h ?srcs (format_obj_input ?srcs) sensors ?pix
           (unrotated_sensors h sensors) (static_sensor_rot h sensors) m sumup squeeze =
    (Inr (finish sumup squeeze
           \<lparr>shape = [length ?srcs, m, length sensors] @ ?pix,
            rows = concat (concat (field_tensor F bh h ?srcs sensors m (prod_list (butlast ?pix))))\<rparr>),
     h,
     compute_events bh h ?srcs (format_obj_input ?srcs) sensors
       (unrotated_sensors h sensors) (static_sensor_rot h sensors) (prod_list (butlast ?pix)) m)"
    by (rule tiled_compute_ok [OF gp m ne rec pix shp])
  show ?thesis
    unfolding getBH_level2_def Let_def fo
    by (simp only: sum.case fst_conv snd_conv same not_True_eq_False if_False gpl p0 tc)
qed

text \<open>
  Claim C7: \<open>Cube.getB\<close> subtracts the position of the source from the observer
  position, rotates the difference with the inverse of the orientation of the source
  (the rotation by the same angle about the negated axis, provided that this undoes the
  rotation about the axis), evaluates the formula there, and rotates the result with the
  orientation itself.
\<close>

theorem C7_frame_transform_sequence:
  assumes "\<forall>v. angleAxisRotation (angle self) (axis self)
                 (angleAxisRotation (angle self) (vneg (axis self)) v) = v"
    and "\<forall>v. angleAxisRotation (angle self) (vneg (axis self))
                 (angleAxisRotation (angle self) (axis self) v) = v"
  shows "Cube_getB angleAxisRotation Bfield_Cube self p1 =
         angleAxisRotation (angle self) (axis self)
           (Bfield_Cube (magnetization self)
              (inv (angleAxisRotation (angle self) (axis self)) (vsub p1 (position self)))
              (dimension self))"
proof -
  have "inv (angleAxisRotation (angle self) (axis self)) =
        angleAxisRotation (angle self) (vneg (axis self))"
    by (rule inv_equality) (use assms in blast)+
  then show ?thesis by (simp add: Cube_getB_def)
qed

theorem C7_frame_transform_sequence_witness:
  "Cube_getB quarter_turn example_Bfield example_cube (3, 5, 7) =
     quarter_turn (angle example_cube) (axis example_cube)
       (example_Bfield (magnetization example_cube)
          (inv (quarter_turn (angle example_cube) (axis example_cube)) (vsub (3, 5, 7) (position example_cube)))
          (dimension example_cube))
   \<and> Cube_getB quarter_turn example_Bfield example_cube (3, 5, 7) = (4, 10, 15)"
proof -
  have a: "\<forall>v. quarter_turn (angle example_cube) (axis example_cube)
                 (quarter_turn (angle example_cube) (vneg (axis example_cube)) v) = v"
    by (simp add: example_cube_def)
  have b: "\<forall>v. quarter_turn (angle example_cube) (vneg (axis example_cube))
                 (quarter_turn (angle example_cube) (axis example_cube) v) = v"
    by (simp add: example_cube_def)
  have c: "Cube_getB quarter_turn example_Bfield example_cube (3, 5, 7) = (4, 10, 15)"
    by (simp add: Cube_getB_def example_cube_def example_Bfield_def)
  from C7_frame_transform_sequence [of quarter_turn example_cube example_Bfield "(3, 5, 7)", OF a b] c
  show ?thesis ..
qed

text \<open>
  Claim C8: when the grouping has returned, the sources have paths of length \<open>m\<close> and
  there are \<open>n\<close> observer points per path step, the four batched evaluations leave in
  slice \<open>i\<close> of the array the field of the \<open>i\<close>-th source of the flattened list, at every
  path step and observer point, whatever the array held before and however the sources
  are spread over the groups.
\<close>

theorem C8_scatter_restores_source_order:
  assumes "\<forall>a \<in> set src_list. obj_class (h ! a) \<in> {Box, Cylinder, Sphere, Dipole}"
    and "\<forall>a \<in> set src_list. length (pos (h ! a)) = m \<and> length (rot (h ! a)) = m"
    and "length poso = m * n" and "0 < m"
    and "group_sources h (enumerate 0 src_list) ([[], [], [], []], [[], [], [], []]) = Inr (src_sorted, order)"
    and "length B0 = length src_list"
  shows "fst (for_loop (eval_group F bh h src_sorted order poso m n) [0, 1, 2, 3] B0) =
           Inr (map (\<lambda>a. map (\<lambda>j. map (\<lambda>q. src_field F bh h a j (poso ! (j * n + q))) [0..<n]) [0..<m])
                  src_list)"
proof -
  have "for_loop (eval_group F bh h src_sorted order poso m n) [0, 1, 2, 3] B0 =
         (Inr (map (world_rows F bh h poso m n) src_list), level1_events bh h src_list m n)"
    by (rule dispatch_ok [OF _ _ assms(3-6)]) (use assms(1,2) in blast)+
  then show ?thesis by (simp add: world_rows_def)
qed

theorem C8_scatter_restores_source_order_witness:
  "fst (for_loop (eval_group example_formula True example_store [[0], [], [], [1, 1]] [[1], [], [], [0, 2]]
          [(1, 2, 3), (4, 5, 6)] 1 2) [0, 1, 2, 3] [[], [[(9, 9, 9)]], []]) =
     Inr (map (\<lambda>a. map (\<lambda>j. map (\<lambda>q. src_field example_formula True example_store a j
                                    ([(1, 2, 3), (4, 5, 6)] ! (j * 2 + q))) [0..<2]) [0..<1])
            [1, 0, 1])
   \<and> map (\<lambda>a. map (\<lambda>j. map (\<lambda>q. src_field example_formula True example_store a j
                                    ([(1, 2, 3), (4, 5, 6)] ! (j * 2 + q))) [0..<2]) [0..<1])
            [1, 0, 1] =
     [[[(0, 3, 3), (3, 6, 6)]], [[(1, 2, 4), (4, 5, 7)]], [[(0, 3, 3), (3, 6, 6)]]]"
proof -
  have h1: "\<forall>a \<in> set [1, 0, 1]. obj_class (example_store ! a) \<in> {Box, Cylinder, Sphere, Dipole}"
    by code_simp
  have h2: "\<forall>a \<in> set [1, 0, 1]. length (pos (example_store ! a)) = 1 \<and> length (rot (example_store ! a)) = 1"
    by code_simp
  have h3: "length [(1, 2, 3), (4, 5, 6) :: vec] = 1 * 2" by simp
  have h4: "0 < (1::nat)" by simp
  have h5: "group_sources example_store (enumerate 0 [1, 0, 1]) ([[], [], [], []], [[], [], [], []]) =
            Inr ([[0], [], [], [1, 1]], [[1], [], [], [0, 2]])"
    by code_simp
  have h6: "length [[], [[(9, 9, 9)]], [] :: vec list list] = length [1, 0, 1 :: nat]" by simp
  have v: "map (\<lambda>a. map (\<lambda>j. map (\<lambda>q. src_field example_formula True example_store a j
                                    ([(1, 2, 3), (4, 5, 6)] ! (j * 2 + q))) [0..<2]) [0..<1])
            [1, 0, 1] =
     [[[(0, 3, 3), (3, 6, 6)]], [[(1, 2, 4), (4, 5, 7)]], [[(0, 3, 3), (3, 6, 6)]]]"
    by code_simp
  from C8_scatter_restores_source_order [OF h1 h2 h3 h4 h5 h6, of example_formula True] v
  show ?thesis ..
qed

text \<open>
  Claim C9: the flags are computed from the paths as the caller gave them (lines
  170-182), the rotation works on the tiled paths.  For a sensor with a path of length 1
  or \<open>m\<close>, whichever of the three branches of lines 294-309 the flags select, the sensor's
  slice of the array is rotated exactly as by the inverse of the sensor's orientation of
  each path step applied at that step.
\<close>

theorem C9_back_rotation_paths_equivalent:
  assumes "good_paths h objs m" and "0 < m"
    and "i < length sensors" and "sensors ! i \<in> set objs"
    and "well_shaped m n B" and "length B = l0" and "(i + 1) * k_pixel \<le> n"
  shows "fst (rot_sensor (tiled_store m objs h) (unrotated_sensors h sensors) (static_sensor_rot h sensors)
                k_pixel l0 m (i, sensors ! i) B) =
         Inr (rotate_every_step (tiled_store m objs h) (sensors ! i) i k_pixel B)"
proof -
  have "rot_sensor (tiled_store m objs h) (unrotated_sensors h sensors) (static_sensor_rot h sensors)
                k_pixel l0 m (i, sensors ! i) B =
        (Inr (rotate_every_step (tiled_store m objs h) (sensors ! i) i k_pixel B),
         rot_events (tiled_store m objs h) (unrotated_sensors h sensors) (static_sensor_rot h sensors)
           k_pixel l0 m (i, sensors ! i))"
  proof (rule rot_sensor_ok [OF assms(5,6,7)])
    assume "unrotated_sensors h sensors ! i"
    from unrotated_tiled [OF assms(1,2,4,3) this]
    show "\<forall>j<m. rot (tiled_store m objs h ! (sensors ! i)) ! j = unitQ" by blast
  next
    assume "static_sensor_rot h sensors ! i"
    from static_tiled [OF assms(1,2,4,3) this]
    show "\<forall>j<m. rot (tiled_store m objs h ! (sensors ! i)) ! j =
                 rot (tiled_store m objs h ! (sensors ! i)) ! 0" by blast
  qed
  then show ?thesis by simp
qed

text \<open>A Box with a path of length 2 is seen by a sensor of constant non-unit orientation
  (one batched rotation, on its tiled path), by a sensor whose orientation changes along
  its path (the loop over the path steps) and by a sensor of unit orientation (no
  rotation).\<close>

theorem C9_back_rotation_paths_equivalent_witness:
  "fst (rot_sensor (tiled_store 2 [2, 3] example_store2) (unrotated_sensors example_store2 [3])
          (static_sensor_rot example_store2 [3]) 1 1 2 (0, [3] ! 0) [[[(1, 2, 3)], [(4, 5, 6)]]]) =
     Inr (rotate_every_step (tiled_store 2 [2, 3] example_store2) ([3] ! 0) 0 1 [[[(1, 2, 3)], [(4, 5, 6)]]])
   \<and> fst (rot_sensor (tiled_store 2 [2, 5] example_store2) (unrotated_sensors example_store2 [5])
          (static_sensor_rot example_store2 [5]) 1 1 2 (0, [5] ! 0) [[[(1, 2, 3)], [(4, 5, 6)]]]) =
     Inr (rotate_every_step (tiled_store 2 [2, 5] example_store2) ([5] ! 0) 0 1 [[[(1, 2, 3)], [(4, 5, 6)]]])
   \<and> fst (rot_sensor (tiled_store 2 [2, 8] example_store2) (unrotated_sensors example_store2 [8])
          (static_sensor_rot example_store2 [8]) 1 1 2 (0, [8] ! 0) [[[(1, 2, 3)], [(4, 5, 6)]]]) =
     Inr (rotate_every_step (tiled_store 2 [2, 8] example_store2) ([8] ! 0) 0 1 [[[(1, 2, 3)], [(4, 5, 6)]]])
   \<and> rotate_every_step (tiled_store 2 [2, 3] example_store2) 3 0 1 [[[(1, 2, 3)], [(4, 5, 6)]]] =
       [[[(1, - 2, - 3)], [(4, - 5, - 6)]]]
   \<and> rotate_every_step (tiled_store 2 [2, 5] example_store2) 5 0 1 [[[(1, 2, 3)], [(4, 5, 6)]]] =
       [[[(1, - 2, - 3)], [(- 4, 5, - 6)]]]
   \<and> rotate_every_step (tiled_store 2 [2, 8] example_store2) 8 0 1 [[[(1, 2, 3)], [(4, 5, 6)]]] =
       [[[(1, 2, 3)], [(4, 5, 6)]]]
   \<and> (unrotated_sensors example_store2 [3], static_sensor_rot example_store2 [3]) = ([False], [True])
   \<and> (unrotated_sensors example_store2 [5], static_sensor_rot example_store2 [5]) = ([False], [False])
   \<and> (unrotated_sensors example_store2 [8], static_sensor_rot example_store2 [8]) = ([True], [True])"
proof -
  have g3: "good_paths example_store2 [2, 3] 2" by code_simp
  have g5: "good_paths example_store2 [2, 5] 2" by code_simp
  have g8: "good_paths example_store2 [2, 8] 2" by code_simp
  have m: "0 < (2::nat)" by simp
  have ws: "well_shaped 2 1 [[[(1, 2, 3)], [(4, 5, 6)]]]" by code_simp
  have lB: "length [[[(1, 2, 3)], [(4, 5, 6) :: vec]]] = 1" by simp
  have hi: "(0 + 1) * 1 \<le> (1::nat)" by simp
  have v3: "rotate_every_step (tiled_store 2 [2, 3] example_store2) 3 0 1 [[[(1, 2, 3)], [(4, 5, 6)]]] =
       [[[(1, - 2, - 3)], [(4, - 5, - 6)]]]" by code_simp
  have v5: "rotate_every_step (tiled_store 2 [2, 5] example_store2) 5 0 1 [[[(1, 2, 3)], [(4, 5, 6)]]] =
       [[[(1, - 2, - 3)], [(- 4, 5, - 6)]]]" by code_simp
  have v8: "rotate_every_step (tiled_store 2 [2, 8] example_store2) 8 0 1 [[[(1, 2, 3)], [(4, 5, 6)]]] =
       [[[(1, 2, 3)], [(4, 5, 6)]]]" by code_simp
  have f3: "(unrotated_sensors example_store2 [3], static_sensor_rot example_store2 [3]) = ([False], [True])"
    by code_simp
  have f5: "(unrotated_sensors example_store2 [5], static_sensor_rot example_store2 [5]) = ([False], [False])"
    by code_simp
  have f8: "(unrotated_sensors example_store2 [8], static_sensor_rot example_store2 [8]) = ([True], [True])"
    by code_simp
  have i3: "0 < length [3::nat]" "[3::nat] ! 0 \<in> set [2, 3]" by simp_all
  have i5: "0 < length [5::nat]" "[5::nat] ! 0 \<in> set [2, 5]" by simp_all
  have i8: "0 < length [8::nat]" "[8::nat] ! 0 \<in> set [2, 8]" by simp_all
  note a = C9_back_rotation_paths_equivalent [OF g3 m i3 ws lB hi]
  note b = C9_back_rotation_paths_equivalent [OF g5 m i5 ws lB hi]
  note c = C9_back_rotation_paths_equivalent [OF g8 m i8 ws lB hi]
  from a b c v3 v5 v8 f3 f5 f8 show ?thesis by (intro conjI)
qed

subsection \<open>The events of a call, stage by stage\<close>

lemma then_do_snd:
  "snd (then_do r f) = snd r @ (case fst r of Inl e \<Rightarrow> [] | Inr x \<Rightarrow> snd (f x))"
  by (cases r; cases "fst r") (auto simp: then_do_def split: prod.splits)

lemma then_do_fst:
  "fst (then_do r f) = (case fst r of Inl e \<Rightarrow> Inl e | Inr x \<Rightarrow> fst (f x))"
  by (cases r; cases "fst r") (auto simp: then_do_def split: prod.splits)

lemma for_loop_all:
  assumes "\<And>i x. list_all P (snd (body i x))"
  shows "list_all P (snd (for_loop body is x))"
proof (induction "is" arbitrary: x)
  case Nil
  then show ?case by simp
next
  case (Cons i "is")
  show ?case
    using assms [of i x] Cons.IH
    by (cases "fst (body i x)") (simp_all add: then_do_snd)
qed

lemma eval_group_stage: "list_all (\<lambda>e. stage e = 0) (snd (eval_group F bh h src_sorted order poso m n g B))"
  by (simp add: eval_group_def Let_def split: sum.splits)

lemma sum_entry_stage: "list_all (\<lambda>e. stage e = 1) (snd (sum_entry m n x B))"
proof (cases x)
  case (Pair i e)
  then show ?thesis by (cases e) (simp_all add: Let_def)
qed

lemma for_loop_prefix:
  assumes "\<And>i x. (\<exists>rest. ev i = snd (body i x) @ rest)
                  \<and> (\<forall>y. fst (body i x) = Inr y \<longrightarrow> snd (body i x) = ev i)"
  shows "(\<exists>rest. concat (map ev is) = snd (for_loop body is x) @ rest)
         \<and> (\<forall>y. fst (for_loop body is x) = Inr y \<longrightarrow> snd (for_loop body is x) = concat (map ev is))"
proof (induction "is" arbitrary: x)
  case Nil
  then show ?case by simp
next
  case (Cons i "is")
  show ?case
  proof (cases "fst (body i x)")
    case (Inl e)
    from assms [of i x] obtain rest where "ev i = snd (body i x) @ rest" by blast
    with Inl show ?thesis by (simp add: then_do_snd then_do_fst)
  next
    case (Inr y)
    with assms [of i x] have e: "snd (body i x) = ev i" by blast
    from Cons.IH [of y] Inr e show ?thesis by (auto simp: then_do_snd then_do_fst)
  qed
qed

lemma rot_step_events:
  "(\<exists>rest. [RotBack i (rot (h ! sens) ! j) (k_pixel * l0)] = snd (rot_step h sens i k_pixel l0 j B) @ rest)
   \<and> (\<forall>y. fst (rot_step h sens i k_pixel l0 j B) = Inr y \<longrightarrow>
          snd (rot_step h sens i k_pixel l0 j B) = [RotBack i (rot (h ! sens) ! j) (k_pixel * l0)])"
  by (simp add: rot_step_def Let_def)

lemma rot_sensor_events:
  "(\<exists>rest. rot_events h unrotated static k_pixel l0 m x = snd (rot_sensor h unrotated static k_pixel l0 m x B) @ rest)
   \<and> (\<forall>y. fst (rot_sensor h unrotated static k_pixel l0 m x B) = Inr y \<longrightarrow>
          snd (rot_sensor h unrotated static k_pixel l0 m x B) = rot_events h unrotated static k_pixel l0 m x)"
proof (cases x)
  case (Pair i sens)
  show ?thesis
  proof (cases "unrotated ! i")
    case True
    with Pair show ?thesis by (simp add: rot_sensor_def)
  next
    case u: False
    show ?thesis
    proof (cases "static ! i")
      case True
      with u Pair show ?thesis by (simp add: rot_sensor_def Let_def)
    next
      case False
      have c: "concat (map (\<lambda>j. [RotBack i (rot (h ! sens) ! j) (k_pixel * l0)]) [0..<m]) =
               map (\<lambda>j. RotBack i (rot (h ! sens) ! j) (k_pixel * l0)) [0..<m]"
        by (induction m) simp_all
      from for_loop_prefix [where body = "rot_step h sens i k_pixel l0"
          and ev = "\<lambda>j. [RotBack i (rot (h ! sens) ! j) (k_pixel * l0)]", OF rot_step_events, of "[0..<m]" B]
      show ?thesis using u False Pair by (simp add: rot_sensor_def c)
    qed
  qed
qed

lemma rot_events_stage: "list_all (\<lambda>e. stage e = 2) (rot_events h unrotated static k_pixel l0 m x)"
  by (cases x) (simp add: list_all_iff)

lemma compute_trace:
  "\<exists>ev1 ev2 ev3 rest.
      snd (compute F bh h sources src_list sensors pix_shape unrotated static m sumup squeeze) = ev1 @ ev2 @ ev3
    \<and> list_all (\<lambda>e. stage e = 0) ev1 \<and> list_all (\<lambda>e. stage e = 1) ev2
    \<and> concat (map (rot_events h unrotated static (prod_list (butlast pix_shape)) (length sources) m)
         (enumerate 0 sensors)) = ev3 @ rest"
proof (cases "group_sources h (enumerate 0 src_list) ([[], [], [], []], [[], [], [], []])")
  case (Inl e)
  then have "snd (compute F bh h sources src_list sensors pix_shape unrotated static m sumup squeeze) = [] @ [] @ []"
    by (simp add: compute_def Let_def)
  then show ?thesis
    by (intro exI [of _ "[]"] exI [of _ "concat (map (rot_events h unrotated static
          (prod_list (butlast pix_shape)) (length sources) m) (enumerate 0 sensors))"]) simp
next
  case (Inr g)
  obtain src_sorted order where g: "g = (src_sorted, order)" by (cases g)
  let ?poso = "observer_positions h sensors m"
  let ?n = "length ?poso div m"
  let ?kp = "prod_list (butlast pix_shape)"
  let ?L = "for_loop (eval_group F bh h src_sorted order ?poso m ?n) [0, 1, 2, 3]
              (replicate (length src_list) (replicate m (replicate ?n vzero)))"
  let ?S = "\<lambda>B. if length src_list > length sources then for_loop (sum_entry m ?n) (enumerate 0 sources) B
                 else (Inr B, [])"
  let ?R = "for_loop (rot_sensor h unrotated static ?kp (length sources) m) (enumerate 0 sensors)"
  let ?E = "concat (map (rot_events h unrotated static ?kp (length sources) m) (enumerate 0 sensors))"
  let ?fin = "\<lambda>B. case np_reshape ([length sources, m] @ [length sensors] @ pix_shape) B of
                       Inl e \<Rightarrow> (Inl e, [])
                     | Inr B \<Rightarrow> (let B = (if sumup then np_sum0 B else B);
                                    B = (if squeeze then np_squeeze B else B)
                                in (Inr B, []))"
  have fin: "snd (?fin B) = []" for B
    by (simp add: Let_def split: sum.splits)
  have c: "compute F bh h sources src_list sensors pix_shape unrotated static m sumup squeeze =
           then_do ?L (\<lambda>B. then_do (?S B) (\<lambda>B. then_do (?R B) ?fin))"
    by (simp add: compute_def Let_def Inr g)
  have l1: "list_all (\<lambda>e. stage e = 0) (snd ?L)"
    by (rule for_loop_all) (rule eval_group_stage)
  have s1: "list_all (\<lambda>e. stage e = 1) (snd (?S B))" for B
  proof (cases "length src_list > length sources")
    case True
    have "list_all (\<lambda>e. stage e = 1) (snd (for_loop (sum_entry m ?n) (enumerate 0 sources) B))"
      by (rule for_loop_all) (rule sum_entry_stage)
    with True show ?thesis by simp
  next
    case False
    then show ?thesis by simp
  qed
  have r1: "\<exists>rest. ?E = snd (?R B) @ rest" for B
    using for_loop_prefix [where body = "rot_sensor h unrotated static ?kp (length sources) m"
        and ev = "rot_events h unrotated static ?kp (length sources) m", OF rot_sensor_events,
        of "enumerate 0 sensors" B]
    by blast
  show ?thesis
  proof (cases "fst ?L")
    case (Inl e)
    then have "snd (compute F bh h sources src_list sensors pix_shape unrotated static m sumup squeeze) =
               snd ?L @ [] @ []"
      unfolding c by (simp add: then_do_snd)
    with l1 show ?thesis by (intro exI [of _ "snd ?L"] exI [of _ "[]"] exI [of _ ?E]) simp
  next
    case L: (Inr B)
    show ?thesis
    proof (cases "fst (?S B)")
      case (Inl e)
      with L have "snd (compute F bh h sources src_list sensors pix_shape unrotated static m sumup squeeze) =
               snd ?L @ snd (?S B) @ []"
        unfolding c by (simp add: then_do_snd)
      with l1 s1 [of B] show ?thesis
        by (intro exI [of _ "snd ?L"] exI [of _ "snd (?S B)"] exI [of _ "[]"] exI [of _ ?E]) simp
    next
      case S: (Inr B')
      from r1 [of B'] obtain rest where rest: "?E = snd (?R B') @ rest" by blast
      have "snd (then_do (?R B') ?fin) = snd (?R B')"
        by (cases "fst (?R B')") (simp_all add: then_do_snd Let_def split: sum.splits)
      with L S have "snd (compute F bh h sources src_list sensors pix_shape unrotated static m sumup squeeze) =
               snd ?L @ snd (?S B) @ snd (?R B')"
        unfolding c by (simp add: then_do_snd)
      with l1 s1 [of B] rest show ?thesis
        by (intro exI [of _ "snd ?L"] exI [of _ "snd (?S B)"] exI [of _ "snd (?R B')"] exI [of _ rest]) simp
    qed
  qed
qed

lemma sorted_stages:
  assumes "list_all (\<lambda>e. stage e = 0) ev1" and "list_all (\<lambda>e. stage e = 1) ev2"
    and "list_all (\<lambda>e. stage e = 2) ev3"
  shows "sorted (map stage (ev1 @ ev2 @ ev3))"
proof -
  have "sorted (map stage ev)" if "list_all (\<lambda>e. stage e = c) ev" for ev c
    using that by (induction ev) (auto simp: list_all_iff)
  with assms show ?thesis
    by (auto simp: sorted_append list_all_iff)
qed

lemma compute_sorted:
  "sorted (map stage (snd (compute F bh h sources src_list sensors pix_shape unrotated static m sumup squeeze)))"
proof -
  let ?E = "concat (map (rot_events h unrotated static (prod_list (butlast pix_shape)) (length sources) m)
         (enumerate 0 sensors))"
  from compute_trace [of F bh h sources src_list sensors pix_shape unrotated static m sumup squeeze]
  obtain ev1 ev2 ev3 rest where
    t: "snd (compute F bh h sources src_list sensors pix_shape unrotated static m sumup squeeze) = ev1 @ ev2 @ ev3"
    and a: "list_all (\<lambda>e. stage e = 0) ev1" "list_all (\<lambda>e. stage e = 1) ev2"
    and r: "?E = ev3 @ rest"
    by blast
  have "list_all (\<lambda>e. stage e = 2) ?E"
    unfolding list_all_iff
  proof
    fix e assume "e \<in> set ?E"
    then obtain x where "e \<in> set (rot_events h unrotated static (prod_list (butlast pix_shape)) (length sources) m x)"
      by auto
    with rot_events_stage [of h unrotated static "prod_list (butlast pix_shape)" "length sources" m x]
    show "stage e = 2" by (simp add: list_all_iff)
  qed
  with r have "list_all (\<lambda>e. stage e = 2) ev3" by simp
  from sorted_stages [OF a this] t show ?thesis by simp
qed

lemma getBH_level2_sorted:
  "sorted (map stage (snd (snd (getBH_level2 F bh sources observers sumup squeeze h0))))"
  by (simp add: getBH_level2_def tiled_compute_def Let_def compute_sorted split: sum.splits)

lemma getBH_level2_good:
  assumes "format_observers observers h0 = Inr (sensors, h)"
    and "good_call h (as_list sources) sensors m"
  shows "getBH_level2 F bh sources observers sumup squeeze h0 =
    (Inr (finish sumup squeeze
           \<lparr>shape = [length (as_list sources), m, length sensors] @ shape (pos_pix (h ! (sensors ! 0))),
            rows = concat (concat (field_tensor F bh h (as_list sources) sensors m
                     (prod_list (butlast (shape (pos_pix (h ! (sensors ! 0))))))))\<rparr>),
     h,
     compute_events bh h (as_list sources) (format_obj_input (as_list sources)) sensors
       (unrotated_sensors h sensors) (static_sensor_rot h sensors)
       (prod_list (butlast (shape (pos_pix (h ! (sensors ! 0)))))) m)"
  by (rule getBH_level2_ok [OF assms(1)]) (use assms(2) in \<open>auto simp: good_call_def\<close>)



lemma good_call_pix:
  assumes "format_observers observers h0 = Inr (sensors, h)" and "good_call h srcs sensors m"
    and "s \<in> set sensors"
  shows "shape (pos_pix (h ! s)) = shape (pos_pix (h ! (sensors ! 0)))"
proof -
  let ?shapes = "map (\<lambda>sens. shape (pos_pix (h ! sens))) sensors"
  from format_observers_ne [OF assms(1)] have "?shapes ! 0 = shape (pos_pix (h ! (sensors ! 0)))"
    by (cases sensors) simp_all
  moreover from assms(3) have "shape (pos_pix (h ! s)) \<in> set ?shapes" by auto
  moreover from assms(2) have "all_same ?shapes" by (simp add: good_call_def)
  ultimately show ?thesis using all_same_nth by metis
qed

lemma finish_shape:
  "shape (finish sumup squeeze \<lparr>shape = l # shp, rows = rs\<rparr>) =
   (let s = (if sumup then shp else l # shp) in if squeeze then filter (\<lambda>d. d \<noteq> 1) s else s)"
  by (simp add: finish_def np_sum0_def np_squeeze_def Let_def)

lemma vsum_single: "vsum [x] = x"
  by (simp add: vsum_def)

lemma finish_single:
  "finish sumup True \<lparr>shape = [1, 1, 1, 1, 1, 3], rows = [v]\<rparr> = \<lparr>shape = [3], rows = [v]\<rparr>"
  by (simp add: finish_def np_sum0_def np_squeeze_def Let_def vsum_single)




end
